theory Spec2Isabelle
  imports Main "HOL-Library.Sublist"
begin

section \<open>Document trees and JavaScript values\<close>

text \<open>
  The values the YAML loader hands to the action: scalars (null, booleans, numbers,
  strings), sequences and mappings. A mapping is the list of its entries in the order
  \<^verbatim>\<open>Object.entries\<close> enumerates them. A number is kept as its string form, the
  text \<^verbatim>\<open>Number::toString\<close> gives (\<^verbatim>\<open>1\<close>, \<^verbatim>\<open>-2.5\<close>, \<^verbatim>\<open>1e+21\<close>, \<^verbatim>\<open>NaN\<close>): the
  action tests a number for truthiness, converts it to text and hands it on, and does
  nothing else with it. Both zeros have the form \<^verbatim>\<open>0\<close>.
  The empty object \<^verbatim>\<open>{}\<close> is \<open>YMap []\<close>. A string is the list of its characters;
  the characters the action looks for (\<^verbatim>\<open>$\<close>, parentheses, dot, hyphen) are ASCII.
\<close>

datatype yaml =
    YNull
  | YBool bool
  | YNum string
  | YStr string
  | YSeq "yaml list"
  | YMap "(string \<times> yaml) list"

text \<open>\<^verbatim>\<open>typeof value === "object"\<close>: true of null, arrays and objects.\<close>

fun typeof_object :: "yaml \<Rightarrow> bool" where
  "typeof_object YNull = True"
| "typeof_object (YSeq xs) = True"
| "typeof_object (YMap kvs) = True"
| "typeof_object v = False"

fun typeof_string :: "yaml \<Rightarrow> bool" where
  "typeof_string (YStr s) = True"
| "typeof_string v = False"

fun isArray :: "yaml \<Rightarrow> bool" where
  "isArray (YSeq xs) = True"
| "isArray v = False"

text \<open>JavaScript truthiness, as tested by \<^verbatim>\<open>!resolved[varName]\<close>.\<close>

fun truthy :: "yaml \<Rightarrow> bool" where
  "truthy YNull = False"
| "truthy (YBool b) = b"
| "truthy (YNum n) = (n \<noteq> ''0'' \<and> n \<noteq> ''NaN'')"
| "truthy (YStr s) = (s \<noteq> [])"
| "truthy (YSeq xs) = True"
| "truthy (YMap kvs) = True"

subsection \<open>Decimal rendering\<close>

text \<open>The decimal numeral of an array index, as a property key.\<close>

definition digit_char :: "nat \<Rightarrow> char" where
  "digit_char d = ''0123456789'' ! d"

fun dec_nat :: "nat \<Rightarrow> string" where
  "dec_nat n = (if n < 10 then [digit_char n] else dec_nat (n div 10) @ [digit_char (n mod 10)])"

declare dec_nat.simps [simp del]

fun join_comma :: "string list \<Rightarrow> string" where
  "join_comma [] = []"
| "join_comma [s] = s"
| "join_comma (s # t # ss) = s @ '','' @ join_comma (t # ss)"

text \<open>
  \<^verbatim>\<open>ToString\<close>: the string form a value takes as a replacement text and inside a
  template literal. An array joins the forms of its elements with commas, a null
  element giving the empty text; an object is \<^verbatim>\<open>[object Object]\<close>.
\<close>

fun to_string :: "yaml \<Rightarrow> string" where
  "to_string YNull = ''null''"
| "to_string (YBool b) = (if b then ''true'' else ''false'')"
| "to_string (YNum n) = n"
| "to_string (YStr s) = s"
| "to_string (YSeq xs) = join_comma (map (\<lambda>x. if x = YNull then [] else to_string x) xs)"
| "to_string (YMap kvs) = ''[object Object]''"

section \<open>String matching and replacement\<close>

text \<open>
  The regular expression \<^verbatim>\<open>/\$\(([^\)]+)\)/\<close> tried at the head of a string: a dollar
  sign, an opening parenthesis, one or more characters other than the closing
  parenthesis, and a closing parenthesis. The result is the captured group.
\<close>

fun match_here :: "string \<Rightarrow> string option" where
  "match_here (a # b # t) =
     (if a = CHR ''$'' \<and> b = CHR ''(''
      then (let name = takeWhile (\<lambda>c. c \<noteq> CHR '')'') t;
                r = dropWhile (\<lambda>c. c \<noteq> CHR '')'') t
            in if name \<noteq> [] \<and> r \<noteq> [] then Some name else None)
      else None)"
| "match_here s = None"

text \<open>
  \<^verbatim>\<open>value.match(/\$\(([^\)]+)\)/)\<close>: the leftmost match, as its index, the matched text
  \<^verbatim>\<open>match[0]\<close> and the captured group \<^verbatim>\<open>match[1]\<close>; \<open>None\<close> is \<^verbatim>\<open>null\<close>.
\<close>

fun js_match :: "string \<Rightarrow> (nat \<times> string \<times> string) option" where
  "js_match [] = None"
| "js_match (c # cs) =
     (case match_here (c # cs) of
        Some name \<Rightarrow> Some (0, ''$('' @ name @ '')'', name)
      | None \<Rightarrow> map_option (\<lambda>(i, m0, m1). (Suc i, m0, m1)) (js_match cs))"

text \<open>\<^verbatim>\<open>String.prototype.indexOf\<close>: the index of the first occurrence of a text.\<close>

fun index_of :: "string \<Rightarrow> string \<Rightarrow> nat option" where
  "index_of needle [] = (if needle = [] then Some 0 else None)"
| "index_of needle (c # cs) =
     (if prefix needle (c # cs) then Some 0 else map_option Suc (index_of needle cs))"

text \<open>
  \<^verbatim>\<open>GetSubstitution\<close> for a string pattern (no capture groups): in the replacement
  text \<^verbatim>\<open>$$\<close> stands for a dollar sign, \<^verbatim>\<open>$&\<close> for the matched text, \<^verbatim>\<open>$`\<close> for the
  text before the match and \<^verbatim>\<open>$'\<close> for the text after it; every other character,
  a dollar sign before anything else included, stands for itself.
\<close>

fun get_substitution :: "string \<Rightarrow> string \<Rightarrow> string \<Rightarrow> string \<Rightarrow> string" where
  "get_substitution matched pre post [] = []"
| "get_substitution matched pre post [c] = [c]"
| "get_substitution matched pre post (c # d # t) =
     (if c = CHR ''$'' \<and> d = CHR ''$'' then CHR ''$'' # get_substitution matched pre post t
      else if c = CHR ''$'' \<and> d = CHR ''&'' then matched @ get_substitution matched pre post t
      else if c = CHR ''$'' \<and> d = CHR 0x60 then pre @ get_substitution matched pre post t
      else if c = CHR ''$'' \<and> d = CHR 0x27 then post @ get_substitution matched pre post t
      else c # get_substitution matched pre post (d # t))"

text \<open>
  \<^verbatim>\<open>value.replace(search, replacement)\<close> with two strings: the first occurrence of
  \<open>search\<close> is replaced by the expansion of \<open>replacement\<close>; a string without the
  occurrence is returned unchanged.
\<close>

definition replace_string :: "string \<Rightarrow> string \<Rightarrow> string \<Rightarrow> string" where
  "replace_string v search replacement =
     (case index_of search v of
        None \<Rightarrow> v
      | Some p \<Rightarrow>
          take p v
          @ get_substitution search (take p v) (drop (p + length search) v) replacement
          @ drop (p + length search) v)"

section \<open>Objects and property access\<close>

text \<open>
  An object is the list of its own enumerable properties in enumeration order:
  array-index keys first, in ascending numeric order, then the other keys in the
  order of their creation.
\<close>

type_synonym obj = "(string \<times> yaml) list"

definition is_digit :: "char \<Rightarrow> bool" where
  "is_digit c = (c \<in> set ''0123456789'')"

definition digit_val :: "char \<Rightarrow> nat" where
  "digit_val c = of_char c - 48"

definition num_of_digits :: "string \<Rightarrow> nat" where
  "num_of_digits s = foldl (\<lambda>acc c. 10 * acc + digit_val c) 0 s"

text \<open>An array index is a canonical decimal numeral below \<open>2^32 - 1\<close>.\<close>

definition array_index :: "string \<Rightarrow> nat option" where
  "array_index k =
     (if k \<noteq> [] \<and> list_all is_digit k \<and> (k = ''0'' \<or> hd k \<noteq> CHR ''0'')
         \<and> num_of_digits k < 4294967295
      then Some (num_of_digits k) else None)"

fun insert_index :: "nat \<Rightarrow> string \<Rightarrow> yaml \<Rightarrow> obj \<Rightarrow> obj" where
  "insert_index n k v [] = [(k, v)]"
| "insert_index n k v ((k', v') # rest) =
     (case array_index k' of
        Some n' \<Rightarrow> if n' < n then (k', v') # insert_index n k v rest
                   else (k, v) # (k', v') # rest
      | None \<Rightarrow> (k, v) # (k', v') # rest)"

text \<open>
  The assignment \<^verbatim>\<open>obj[k] = v\<close>. An existing property keeps its place; a new one
  goes to its place in the enumeration order. Assigning to \<^verbatim>\<open>__proto__\<close> runs the
  setter inherited from \<^verbatim>\<open>Object.prototype\<close> and creates no own property.
\<close>

definition obj_set :: "string \<Rightarrow> yaml \<Rightarrow> obj \<Rightarrow> obj" where
  "obj_set k v ob =
     (if k = ''__proto__'' then ob
      else if k \<in> fst ` set ob then map (\<lambda>(k', v'). if k' = k then (k', v) else (k', v')) ob
      else case array_index k of
             Some n \<Rightarrow> insert_index n k v ob
           | None \<Rightarrow> ob @ [(k, v)])"

text \<open>
  The properties every object created by \<^verbatim>\<open>{}\<close> inherits from
  \<^verbatim>\<open>Object.prototype\<close>.
\<close>

definition object_prototype_members :: "string list" where
  "object_prototype_members =
     [''constructor'', ''__defineGetter__'', ''__defineSetter__'', ''hasOwnProperty'',
      ''__lookupGetter__'', ''__lookupSetter__'', ''isPrototypeOf'',
      ''propertyIsEnumerable'', ''toString'', ''valueOf'', ''__proto__'',
      ''toLocaleString'']"

text \<open>
  The result of the property read \<^verbatim>\<open>obj[name]\<close>: an own property, a member inherited
  from the prototype, or \<^verbatim>\<open>undefined\<close>.
\<close>

datatype property = Absent | Own yaml | Inherited string

definition get_prop :: "obj \<Rightarrow> string \<Rightarrow> property" where
  "get_prop ob name =
     (case map_of ob name of
        Some v \<Rightarrow> Own v
      | None \<Rightarrow> if name \<in> set object_prototype_members then Inherited name else Absent)"

text \<open>Inherited members are functions, or the prototype object itself: all truthy.\<close>

fun truthy_prop :: "property \<Rightarrow> bool" where
  "truthy_prop Absent = False"
| "truthy_prop (Own v) = truthy v"
| "truthy_prop (Inherited n) = True"

section \<open>Errors\<close>

datatype error =
    UndefinedVariable string
  | TypeError
  | SyntaxError
  | LoadError string

text \<open>
  The message of the error thrown for an undefined variable:
  \<^verbatim>\<open>Variable "name" is not defined\<close>.
\<close>

definition undefined_message :: "string \<Rightarrow> string" where
  "undefined_message varName = ''Variable '' @ [CHR 0x22] @ varName @ [CHR 0x22] @ '' is not defined''"

section \<open>Variable replacement\<close>

text \<open>
  An inherited function passed as the replacement of \<^verbatim>\<open>replace\<close> is called with
  the matched text, without a receiver. \<^verbatim>\<open>Object\<close> wraps the text, whose string
  form is the text again; \<^verbatim>\<open>toString\<close> and \<^verbatim>\<open>isPrototypeOf\<close> return a fixed
  text; the other members need a receiver and throw.
\<close>

definition call_member :: "string \<Rightarrow> string \<Rightarrow> error + string" where
  "call_member n matched =
     (if n = ''constructor'' then Inr matched
      else if n = ''toString'' then Inr ''[object Undefined]''
      else if n = ''isPrototypeOf'' then Inr ''false''
      else Inl TypeError)"

text \<open>
  \<^verbatim>\<open>value.replace(match[0], resolved[varName])\<close>. A replacement that is not a
  function is converted to its string form and expanded; the inherited
  \<^verbatim>\<open>__proto__\<close> is the prototype object, whose string form is
  \<^verbatim>\<open>[object Object]\<close>.
\<close>

definition js_replace :: "string \<Rightarrow> string \<Rightarrow> property \<Rightarrow> error + string" where
  "js_replace v search p =
     (case p of
        Own r \<Rightarrow> Inr (replace_string v search (to_string r))
      | Absent \<Rightarrow> Inr (replace_string v search ''undefined'')
      | Inherited n \<Rightarrow>
          if n = ''__proto__'' then Inr (replace_string v search ''[object Object]'')
          else (case index_of search v of
                  None \<Rightarrow> Inr v
                | Some i \<Rightarrow>
                    (case call_member n search of
                       Inl e \<Rightarrow> Inl e
                     | Inr r \<Rightarrow> Inr (take i v @ r @ drop (i + length search) v))))"

text \<open>
  The loop of \<^verbatim>\<open>replaceVariables\<close> on a string value. The loop need not end, so
  the result is optional: \<open>None\<close> is the loop that runs forever.
\<close>

partial_function (option) replace_loop :: "obj \<Rightarrow> string \<Rightarrow> (error + string) option" where
  "replace_loop resolved v =
     (case js_match v of
        None \<Rightarrow> Some (Inr v)
      | Some (idx, m0, varName) \<Rightarrow>
          if \<not> truthy_prop (get_prop resolved varName)
          then Some (Inl (UndefinedVariable varName))
          else (case js_replace v m0 (get_prop resolved varName) of
                  Inl e \<Rightarrow> Some (Inl e)
                | Inr v' \<Rightarrow> replace_loop resolved v'))"

declare replace_loop.simps [code]

subsection \<open>Traversal measure\<close>

fun ysize :: "yaml \<Rightarrow> nat" where
  "ysize (YSeq xs) = Suc (sum_list (map (\<lambda>x. Suc (ysize x)) xs))"
| "ysize (YMap kvs) = Suc (sum_list (map (\<lambda>kv. Suc (ysize (snd kv))) kvs))"
| "ysize v = 0"

definition esize :: "(string \<times> yaml) list \<Rightarrow> nat" where
  "esize kvs = sum_list (map (\<lambda>kv. Suc (ysize (snd kv))) kvs)"

text \<open>The entries of an array: its elements under their decimal indices.\<close>

fun indexed :: "nat \<Rightarrow> yaml list \<Rightarrow> (string \<times> yaml) list" where
  "indexed i [] = []"
| "indexed i (x # xs) = (dec_nat i, x) # indexed (Suc i) xs"

text \<open>
  \<^verbatim>\<open>Object.entries\<close> of a non-null object value (an array or a mapping); a
  primitive other than a string has no entries.
\<close>

fun entries :: "yaml \<Rightarrow> (string \<times> yaml) list" where
  "entries (YSeq xs) = indexed 0 xs"
| "entries (YMap kvs) = kvs"
| "entries v = []"

text \<open>
  \<^verbatim>\<open>replaceVariables(value, resolved)\<close>. A value of type object is rebuilt property
  by property (null has none, so it becomes the empty object), a string goes through
  the replacement loop, anything else is returned as it is.
\<close>

function replaceVariables :: "yaml \<Rightarrow> obj \<Rightarrow> (error + yaml) option"
  and replaceVariables_keys :: "(string \<times> yaml) list \<Rightarrow> obj \<Rightarrow> obj \<Rightarrow> (error + yaml) option"
where
  "replaceVariables v resolved =
     (if typeof_object v then replaceVariables_keys (entries v) resolved []
      else if typeof_string v
      then (case replace_loop resolved (to_string v) of
              None \<Rightarrow> None
            | Some (Inl e) \<Rightarrow> Some (Inl e)
            | Some (Inr s) \<Rightarrow> Some (Inr (YStr s)))
      else Some (Inr v))"
| "replaceVariables_keys [] resolved nestedObj = Some (Inr (YMap nestedObj))"
| "replaceVariables_keys (kv # rest) resolved nestedObj =
     (case replaceVariables (snd kv) resolved of
        None \<Rightarrow> None
      | Some (Inl e) \<Rightarrow> Some (Inl e)
      | Some (Inr r) \<Rightarrow> replaceVariables_keys rest resolved (obj_set (fst kv) r nestedObj))"
  by pat_completeness auto

termination replaceVariables
proof (relation "measure (\<lambda>x. case x of
          Inl (v, r) \<Rightarrow> 2 * ysize v + 2
        | Inr (kvs, r, acc) \<Rightarrow> 2 * esize kvs + 1)", goal_cases)
  case 1
  show ?case by simp
next
  case (2 v resolved)
  have "esize (indexed i xs) = sum_list (map (\<lambda>x. Suc (ysize x)) xs)" for i xs
    by (induction xs arbitrary: i) (simp_all add: esize_def)
  then have "esize (entries v) \<le> ysize v"
    by (cases v) (simp_all add: esize_def)
  then show ?case by simp
next
  case (3 kv rest resolved nestedObj)
  show ?case by (simp add: esize_def)
next
  case (4 kv rest resolved nestedObj x2 b)
  show ?case by (simp add: esize_def)
qed

section \<open>The run: traversal, filter and outputs\<close>

text \<open>
  The calls the action makes on the Actions toolkit (\<^verbatim>\<open>core.info\<close>,
  \<^verbatim>\<open>core.setOutput\<close>, \<^verbatim>\<open>core.exportVariable\<close>, \<^verbatim>\<open>core.setFailed\<close>), in order.
  \<^verbatim>\<open>setFailed\<close> is given the message of the error caught, which for an undefined
  variable is \<open>undefined_message\<close> of its name. What \<^verbatim>\<open>console.log\<close> prints is no
  event.
\<close>

datatype event =
    Info string
  | SetOutput string yaml
  | ExportVariable string yaml
  | SetFailed error

record run_state =
  outputs :: "event list"
  resolved :: obj

datatype completion = Normal | Thrown error

definition setOutput :: "string \<Rightarrow> yaml \<Rightarrow> run_state \<Rightarrow> run_state" where
  "setOutput name v st = st\<lparr>outputs := outputs st @ [SetOutput name v]\<rparr>"

text \<open>
  \<^verbatim>\<open>resolveFields(obj, prefix)\<close> over the entries of \<open>obj\<close>. The outputs set before
  an error is thrown stay set: the state is returned with the error.
\<close>

function resolveFields ::
  "(string \<times> yaml) list \<Rightarrow> string \<Rightarrow> run_state \<Rightarrow> (completion \<times> run_state) option"
where
  "resolveFields [] pfx st = Some (Normal, st)"
| "resolveFields (kv # rest) pfx st =
     (if typeof_object (snd kv) \<and> snd kv \<noteq> YNull then
        (case resolveFields (entries (snd kv)) (pfx @ fst kv @ ''.'')
                (if isArray (snd kv) then setOutput (pfx @ fst kv @ ''.array'') (snd kv) st
                 else st) of
           None \<Rightarrow> None
         | Some (Thrown e, st') \<Rightarrow> Some (Thrown e, st')
         | Some (Normal, st') \<Rightarrow> resolveFields rest pfx st')
      else
        (case replaceVariables (snd kv) (resolved st) of
           None \<Rightarrow> None
         | Some (Inl e) \<Rightarrow> Some (Thrown e, st)
         | Some (Inr r) \<Rightarrow>
             resolveFields rest pfx (st\<lparr>resolved := obj_set (pfx @ fst kv) r (resolved st)\<rparr>)))"
  by pat_completeness auto

termination resolveFields
proof (relation "measure (\<lambda>(kvs, pfx, st). esize kvs)", goal_cases)
  case 1
  show ?case by simp
next
  case (2 kv rest pfx st)
  have "esize (indexed i xs) = sum_list (map (\<lambda>x. Suc (ysize x)) xs)" for i xs
    by (induction xs arbitrary: i) (simp_all add: esize_def)
  then have "esize (entries (snd kv)) \<le> ysize (snd kv)"
    by (cases "snd kv") (simp_all add: esize_def)
  then show ?case by (simp add: esize_def)
next
  case (3 kv rest pfx st x2 x1 st')
  show ?case by (simp add: esize_def)
next
  case (4 kv rest pfx st x2 b)
  show ?case by (simp add: esize_def)
qed

subsection \<open>The key-path filter\<close>

text \<open>
  A compiled regular expression is taken by what it matches: \<open>m s i = Some e\<close> when
  the expression, tried at index \<open>i\<close> of \<open>s\<close>, matches the text from \<open>i\<close> up to
  \<open>e\<close>. The constructor \<^verbatim>\<open>RegExp\<close> is a parameter of the run; it gives \<open>None\<close>
  where it throws a syntax error.
\<close>

type_synonym matcher = "string \<Rightarrow> nat \<Rightarrow> nat option"

text \<open>\<^verbatim>\<open>key.match(reKPP)\<close> is not null: the expression matches somewhere in the key.\<close>

definition has_match :: "matcher \<Rightarrow> string \<Rightarrow> bool" where
  "has_match m s = list_ex (\<lambda>i. m s i \<noteq> None) [0..<Suc (length s)]"

text \<open>
  \<^verbatim>\<open>key.replace(reKPP, '')\<close> with the flag \<^verbatim>\<open>g\<close>: the scan goes on after each
  match, one character further after an empty one, and every matched text is deleted.
\<close>

function remove_matches :: "matcher \<Rightarrow> string \<Rightarrow> nat \<Rightarrow> string" where
  "remove_matches m s i =
     (if length s < i then []
      else (case m s i of
              Some e \<Rightarrow>
                if i < e then remove_matches m s e
                else if i < length s then s ! i # remove_matches m s (Suc i) else []
            | None \<Rightarrow>
                if i < length s then s ! i # remove_matches m s (Suc i) else []))"
  by pat_completeness auto
termination
  by (relation "measure (\<lambda>(m, s, i). Suc (length s) - i)") auto

declare remove_matches.simps [simp del]

text \<open>
  \<^verbatim>\<open>k.replace(reEnvVarPattern, "_")\<close> with \<^verbatim>\<open>/[\.|\-]/g\<close>: a dot, a vertical bar or a
  hyphen becomes an underscore.
\<close>

definition env_name :: "string \<Rightarrow> string" where
  "env_name k = map (\<lambda>c. if c = CHR ''.'' \<or> c = CHR ''|'' \<or> c = CHR ''-'' then CHR ''_'' else c) k"

definition export_events :: "string \<Rightarrow> string \<Rightarrow> yaml \<Rightarrow> event list" where
  "export_events envVarPrefix k v =
     (if envVarPrefix \<noteq> []
      then [Info (envVarPrefix @ ''_'' @ env_name k @ ''='' @ to_string v),
            ExportVariable (envVarPrefix @ ''_'' @ env_name k) v]
      else [])"

text \<open>The body of the final loop over \<^verbatim>\<open>Object.entries(resolved)\<close>, for one entry.\<close>

definition emit_entry :: "matcher \<Rightarrow> string \<Rightarrow> string \<Rightarrow> string \<times> yaml \<Rightarrow> event list" where
  "emit_entry reKPP keyPathPattern envVarPrefix kv =
     (if keyPathPattern \<noteq> [] then
        (if has_match reKPP (fst kv) then
           [Info (remove_matches reKPP (fst kv) 0 @ '' : '' @ to_string (snd kv)),
            SetOutput (remove_matches reKPP (fst kv) 0) (snd kv)]
           @ export_events envVarPrefix (remove_matches reKPP (fst kv) 0) (snd kv)
         else [])
      else
        [Info (fst kv @ '' : '' @ to_string (snd kv)), SetOutput (fst kv) (snd kv)]
        @ export_events envVarPrefix (fst kv) (snd kv))"

definition emit_resolved :: "matcher \<Rightarrow> string \<Rightarrow> string \<Rightarrow> obj \<Rightarrow> event list" where
  "emit_resolved reKPP keyPathPattern envVarPrefix res =
     concat (map (emit_entry reKPP keyPathPattern envVarPrefix) res)"

subsection \<open>Merging the documents\<close>

text \<open>
  Modelled from the spec: \<^verbatim>\<open>deepmerge\<close>, the function of the npm package of that
  name which line 18 of \<^verbatim>\<open>multi_read_yaml/index.js\<close> imports and line 85 calls; its
  code is not among the sources. Section 4.1 of the specification: two mappings give
  the mapping of the union of their keys, a key of both holding the merge of its two
  values and a key of one holding that side's value; if either side is not a mapping,
  the second wins.
\<close>

function deepMerge :: "yaml \<Rightarrow> yaml \<Rightarrow> yaml" where
  "deepMerge a b =
     (case (a, b) of
        (YMap as, YMap bs) \<Rightarrow>
          YMap (map (\<lambda>kv. (fst kv, case map_of bs (fst kv) of
                                      None \<Rightarrow> snd kv
                                    | Some vb \<Rightarrow> deepMerge (snd kv) vb)) as
                @ filter (\<lambda>kv. fst kv \<notin> fst ` set as) bs)
      | _ \<Rightarrow> b)"
  by pat_completeness auto

termination deepMerge
proof (relation "measure (\<lambda>(a, b). ysize a)", goal_cases)
  case 1
  show ?case by simp
next
  case (2 a b x y as bs kv vb)
  have "kv \<in> set kvs \<Longrightarrow> ysize (snd kv) < ysize (YMap kvs)" for kvs
    by (induction kvs) auto
  with 2 show ?case by auto
qed

declare deepMerge.simps [simp del]

text \<open>
  The loop of \<^verbatim>\<open>main\<close> over the documents, lines 71 to 86: the merged configuration
  starts as the empty object and takes each document in turn.
\<close>

definition merge :: "yaml list \<Rightarrow> yaml" where
  "merge ts = foldl deepMerge (YMap []) ts"

subsection \<open>The main function\<close>

text \<open>
  What reading and parsing a configuration file gives: the read fails, the text is
  not a YAML document, or the document.
\<close>

datatype source_file = Unreadable string | Malformed string | Document yaml

definition pattern_info :: "string \<Rightarrow> event list" where
  "pattern_info keyPathPattern =
     (if keyPathPattern \<noteq> []
      then [Info ([CHR 0x0A, CHR 0x0A] @ ''key-path-pattern is :: '' @ keyPathPattern),
            Info [CHR 0x0A, CHR 0x0A]]
      else [])"

fun load_files ::
  "source_file list \<Rightarrow> string \<Rightarrow> yaml \<Rightarrow> event list \<Rightarrow> completion \<times> yaml \<times> event list"
where
  "load_files [] keyPathPattern mergedConfig evs = (Normal, mergedConfig, evs)"
| "load_files (Unreadable msg # fs) keyPathPattern mergedConfig evs =
     (Thrown (LoadError msg), mergedConfig, evs)"
| "load_files (Malformed msg # fs) keyPathPattern mergedConfig evs =
     (Thrown (LoadError msg), mergedConfig, evs @ pattern_info keyPathPattern)"
| "load_files (Document d # fs) keyPathPattern mergedConfig evs =
     load_files fs keyPathPattern (deepMerge mergedConfig d) (evs @ pattern_info keyPathPattern)"

text \<open>
  \<^verbatim>\<open>Object.entries\<close> of the merged configuration: it throws on null, and a string
  has its characters as entries.
\<close>

fun object_entries :: "yaml \<Rightarrow> error + (string \<times> yaml) list" where
  "object_entries YNull = Inl TypeError"
| "object_entries (YStr s) = Inr (indexed 0 (map (\<lambda>c. YStr [c]) s))"
| "object_entries v = Inr (entries v)"

text \<open>
  \<^verbatim>\<open>RegExp(keyPathPattern, "g")\<close>: the empty source is the expression that matches
  the empty text at every index.
\<close>

definition compile_pattern :: "(string \<Rightarrow> matcher option) \<Rightarrow> string \<Rightarrow> matcher option" where
  "compile_pattern regexp keyPathPattern =
     (if keyPathPattern = [] then Some (\<lambda>s i. Some i) else regexp keyPathPattern)"

text \<open>
  \<^verbatim>\<open>main\<close> of \<^verbatim>\<open>multi_read_yaml/index.js\<close>: the events of the run, ending with
  \<^verbatim>\<open>setFailed\<close> when an error is caught. \<open>None\<close> is the run that never returns.
\<close>

definition main ::
  "(string \<Rightarrow> matcher option) \<Rightarrow> source_file list \<Rightarrow> string \<Rightarrow> string \<Rightarrow> event list option"
where
  "main regexp configFiles keyPathPattern envVarPrefix =
     (case load_files configFiles keyPathPattern (YMap []) [] of
        (Thrown e, mergedConfig, evs) \<Rightarrow> Some (evs @ [SetFailed e])
      | (Normal, mergedConfig, evs) \<Rightarrow>
          (case object_entries mergedConfig of
             Inl e \<Rightarrow> Some (evs @ [SetFailed e])
           | Inr es \<Rightarrow>
               (case resolveFields es [] \<lparr>outputs = evs, resolved = []\<rparr> of
                  None \<Rightarrow> None
                | Some (Thrown e, st) \<Rightarrow> Some (outputs st @ [SetFailed e])
                | Some (Normal, st) \<Rightarrow>
                    (case compile_pattern regexp keyPathPattern of
                       None \<Rightarrow> Some (outputs st @ [SetFailed SyntaxError])
                     | Some reKPP \<Rightarrow>
                         Some (outputs st
                               @ emit_resolved reKPP keyPathPattern envVarPrefix (resolved st))))))"

text \<open>The (key, value) pairs a run hands to \<^verbatim>\<open>setOutput\<close>.\<close>

fun output_pairs :: "event list \<Rightarrow> (string \<times> yaml) list" where
  "output_pairs [] = []"
| "output_pairs (SetOutput k v # evs) = (k, v) # output_pairs evs"
| "output_pairs (ev # evs) = output_pairs evs"

text \<open>
  A regular expression without special characters matches its own text:
  \<^verbatim>\<open>RegExp\<close> on such sources.
\<close>

definition literal_matcher :: "string \<Rightarrow> matcher" where
  "literal_matcher p = (\<lambda>s i. if prefix p (drop i s) then Some (i + length p) else None)"

definition literal_regexp :: "string \<Rightarrow> matcher option" where
  "literal_regexp src = Some (literal_matcher src)"

section \<open>Notions used in the statements\<close>

text \<open>
  A replacement text holds a dollar pattern when one of \<^verbatim>\<open>$$\<close>, \<^verbatim>\<open>$&\<close>, \<^verbatim>\<open>$`\<close>,
  \<^verbatim>\<open>$'\<close> occurs in it: the sequences \<^verbatim>\<open>replace\<close> expands.
\<close>

fun dollar_pattern :: "string \<Rightarrow> bool" where
  "dollar_pattern [] = False"
| "dollar_pattern [c] = False"
| "dollar_pattern (c # d # t) =
     ((c = CHR ''$'' \<and> (d = CHR ''$'' \<or> d = CHR ''&'' \<or> d = CHR 0x60 \<or> d = CHR 0x27))
      \<or> dollar_pattern (d # t))"

text \<open>
  The pattern of the specification, in its words: \<^verbatim>\<open>$(\<close>, one or more characters
  other than \<^verbatim>\<open>)\<close>, and \<^verbatim>\<open>)\<close>; \<open>reference_at s pre name post\<close> says that the
  pattern occurs in \<open>s\<close> after the text \<open>pre\<close>, with \<open>name\<close> captured and \<open>post\<close>
  following. The leftmost occurrence is the one no other occurrence starts before.
\<close>

definition reference_at :: "string \<Rightarrow> string \<Rightarrow> string \<Rightarrow> string \<Rightarrow> bool" where
  "reference_at s pre name post \<longleftrightarrow>
     s = pre @ ''$('' @ name @ '')'' @ post \<and> name \<noteq> [] \<and> CHR '')'' \<notin> set name"

definition leftmost_reference :: "string \<Rightarrow> string \<Rightarrow> string \<Rightarrow> string \<Rightarrow> bool" where
  "leftmost_reference s pre name post \<longleftrightarrow>
     reference_at s pre name post \<and>
     (\<forall>pre' name' post'. reference_at s pre' name' post' \<longrightarrow> length pre \<le> length pre')"

text \<open>
  The resolution of a string in the words of the specification: scan for the leftmost
  occurrence of the pattern, replace that occurrence with the string form of the value
  the Resolved Map holds under the captured name, and scan the new string again, until
  no pattern remains. \<open>resolves res s t\<close> says that the rescanning, started on \<open>s\<close>,
  meets only references to keys written to \<open>res\<close> with a truthy value whose string
  form holds no dollar pattern, and ends with \<open>t\<close>.
\<close>

inductive resolves :: "obj \<Rightarrow> string \<Rightarrow> string \<Rightarrow> bool" for res :: obj where
  finished: "\<not> (\<exists>pre name post. reference_at s pre name post) \<Longrightarrow> resolves res s s"
| rescan: "leftmost_reference s pre name post \<Longrightarrow> map_of res name = Some v \<Longrightarrow> truthy v \<Longrightarrow>
         \<not> dollar_pattern (to_string v) \<Longrightarrow> resolves res (pre @ to_string v @ post) t \<Longrightarrow>
         resolves res s t"

text \<open>The flat document of the scenario of section 8.\<close>

definition scenario_document :: "(string \<times> yaml) list" where
  "scenario_document =
     [(''namespace'', YStr ''ns''), (''location'', YStr ''loc''), (''environment'', YStr ''dev''),
      (''resource_group_name'', YStr ''$(namespace)-$(location)-$(environment)'')]"

text \<open>
  The whole-array outputs of a document, read off the document alone: for each
  sequence, in traversal order, its key path followed by \<^verbatim>\<open>.array\<close> and the
  sequence as the document has it.
\<close>

function array_marks :: "string \<Rightarrow> (string \<times> yaml) list \<Rightarrow> event list" where
  "array_marks pfx [] = []"
| "array_marks pfx (kv # rest) =
     (if typeof_object (snd kv) \<and> snd kv \<noteq> YNull
      then (if isArray (snd kv) then [SetOutput (pfx @ fst kv @ ''.array'') (snd kv)] else [])
           @ array_marks (pfx @ fst kv @ ''.'') (entries (snd kv))
      else [])
     @ array_marks pfx rest"
  by pat_completeness auto
termination
proof (relation "measure (\<lambda>(pfx, kvs). esize kvs)", goal_cases)
  case 1
  show ?case by simp
next
  case (2 pfx kv rest)
  have "esize (indexed i xs) = sum_list (map (\<lambda>x. Suc (ysize x)) xs)" for i xs
    by (induction xs arbitrary: i) (simp_all add: esize_def)
  then have "esize (entries (snd kv)) \<le> ysize (snd kv)"
    by (cases "snd kv") (simp_all add: esize_def)
  then show ?case by (simp add: esize_def)
next
  case (3 pfx kv rest)
  show ?case by (simp add: esize_def)
qed

text \<open>The kinds of events a run can have made before it fails.\<close>

definition is_info :: "event \<Rightarrow> bool" where
  "is_info ev = (case ev of Info msg \<Rightarrow> True | _ \<Rightarrow> False)"

definition is_array_output :: "event \<Rightarrow> bool" where
  "is_array_output ev =
     (case ev of SetOutput k v \<Rightarrow> suffix ''.array'' k \<and> isArray v | _ \<Rightarrow> False)"



text \<open>
  A path into a document: mapping keys and sequence indices. \<open>at_path v p\<close> is the
  value the document \<open>v\<close> holds at \<open>p\<close>, if any.
\<close>

datatype segment = Key string | Index nat

fun at_path :: "yaml \<Rightarrow> segment list \<Rightarrow> yaml option" where
  "at_path v [] = Some v"
| "at_path (YMap kvs) (Key k # p) = (case map_of kvs k of None \<Rightarrow> None | Some v \<Rightarrow> at_path v p)"
| "at_path (YSeq xs) (Index i # p) = (if i < length xs then at_path (xs ! i) p else None)"
| "at_path v (seg # p) = None"

text \<open>
  The output key in the words of the specification: the key with the first match of
  the pattern removed.
\<close>

definition remove_first_match :: "matcher \<Rightarrow> string \<Rightarrow> string" where
  "remove_first_match m s =
     (case find (\<lambda>i. m s i \<noteq> None) [0..<Suc (length s)] of
        None \<Rightarrow> s
      | Some i \<Rightarrow> (case m s i of None \<Rightarrow> s | Some e \<Rightarrow> take i s @ drop e s))"

text \<open>
  The output key as the global expression gives it, in words: scanning from index
  \<open>k\<close>, the first match that is not empty starts at \<open>i\<close> and ends at \<open>e\<close>; the
  text before it is kept, the match is deleted, and the deletion goes on from \<open>e\<close>
  in the same way; where no such match is left, the rest of the key is kept.
  \<open>deleted_from m s k out\<close> says that \<open>out\<close> is the text of \<open>s\<close> from \<open>k\<close> on with
  every match deleted. (The deletion of an empty match changes nothing.)
\<close>

definition nonempty_match :: "matcher \<Rightarrow> string \<Rightarrow> nat \<Rightarrow> bool" where
  "nonempty_match m s j = (case m s j of None \<Rightarrow> False | Some e \<Rightarrow> j < e)"

inductive deleted_from :: "matcher \<Rightarrow> string \<Rightarrow> nat \<Rightarrow> string \<Rightarrow> bool"
  for m :: matcher and s :: string where
  kept: "\<forall>j. k \<le> j \<and> j \<le> length s \<longrightarrow> \<not> nonempty_match m s j \<Longrightarrow>
         deleted_from m s k (drop k s)"
| cut: "k \<le> i \<Longrightarrow> i \<le> length s \<Longrightarrow> \<forall>j. k \<le> j \<and> j < i \<longrightarrow> \<not> nonempty_match m s j \<Longrightarrow>
        m s i = Some e \<Longrightarrow> i < e \<Longrightarrow> deleted_from m s e out \<Longrightarrow>
        deleted_from m s k (take (i - k) (drop k s) @ out)"


section \<open>Matching and replacement: basic facts\<close>

lemma match_here_SomeD:
  assumes "match_here s = Some n"
  shows "\<exists>post. s = ''$('' @ n @ '')'' @ post" and "n \<noteq> []" and "CHR '')'' \<notin> set n"
proof -
  from assms obtain t where s: "s = CHR ''$'' # CHR ''('' # t"
    by (cases s rule: match_here.cases) (auto split: if_splits)
  let ?P = "\<lambda>c. c \<noteq> CHR '')''"
  from assms s have n: "n = takeWhile ?P t" and ne: "takeWhile ?P t \<noteq> []" and r: "dropWhile ?P t \<noteq> []"
    by (auto simp: Let_def split: if_splits)
  from n ne show "n \<noteq> []" by simp
  from n show "CHR '')'' \<notin> set n" by (auto dest: set_takeWhileD)
  from r have "hd (dropWhile ?P t) = CHR '')''" using hd_dropWhile[of ?P t] by auto
  with r have "dropWhile ?P t = CHR '')'' # tl (dropWhile ?P t)" by (cases "dropWhile ?P t") auto
  then have "t = n @ CHR '')'' # tl (dropWhile ?P t)"
    using takeWhile_dropWhile_id[of ?P t] n by metis
  with s show "\<exists>post. s = ''$('' @ n @ '')'' @ post" by auto
qed

lemma match_here_SomeI:
  assumes "n \<noteq> []" and "CHR '')'' \<notin> set n"
  shows "match_here (''$('' @ n @ '')'' @ post) = Some n"
proof -
  let ?P = "\<lambda>c. c \<noteq> CHR '')''"
  have t: "takeWhile ?P (n @ CHR '')'' # post) = n"
    using assms(2) by (subst takeWhile_append2) auto
  have d: "dropWhile ?P (n @ CHR '')'' # post) = CHR '')'' # post"
    using assms(2) by (subst dropWhile_append2) auto
  show ?thesis using assms(1) t d by (simp add: Let_def)
qed

lemma js_match_SomeD:
  assumes "js_match s = Some (i, m0, n)"
  shows "m0 = ''$('' @ n @ '')''" and "match_here (drop i s) = Some n" and "i < length s"
    and "\<forall>j<i. match_here (drop j s) = None"
  using assms
proof (induction s arbitrary: i)
  case Nil
  { case 1 then show ?case by simp }
  { case 2 then show ?case by simp }
  { case 3 then show ?case by simp }
  { case 4 then show ?case by simp }
next
  case (Cons c cs)
  { case 1 then show ?case using Cons.IH(1) by (auto split: option.splits) }
  { case 2 then show ?case using Cons.IH(2) by (auto split: option.splits) }
  { case 3 then show ?case using Cons.IH(3) by (auto split: option.splits) }
  { case 4 then show ?case using Cons.IH(4)
      by (auto split: option.splits simp: less_Suc_eq_0_disj) }
qed

lemma js_match_SomeI:
  assumes "match_here (drop i s) = Some n" and "\<forall>j<i. match_here (drop j s) = None"
  shows "js_match s = Some (i, ''$('' @ n @ '')'', n)"
  using assms
proof (induction s arbitrary: i)
  case Nil
  then show ?case by simp
next
  case (Cons c cs)
  show ?case
  proof (cases i)
    case 0
    with Cons.prems show ?thesis by simp
  next
    case (Suc k)
    from Cons.prems(2) Suc have h0: "match_here (c # cs) = None" by force
    from Cons.prems(1) Suc have h1: "match_here (drop k cs) = Some n" by simp
    from Cons.prems(2) Suc have h2: "\<forall>j<k. match_here (drop j cs) = None" by force
    from Cons.IH[OF h1 h2] h0 Suc show ?thesis by simp
  qed
qed

lemma prefix_match_here:
  assumes "prefix (''$('' @ n @ '')'') s" and "n \<noteq> []" and "CHR '')'' \<notin> set n"
  shows "match_here s = Some n"
proof -
  from assms(1) obtain post where "s = (''$('' @ n @ '')'') @ post" by (auto simp: prefix_def)
  then have "s = ''$('' @ n @ '')'' @ post" by simp
  with match_here_SomeI[OF assms(2,3)] show ?thesis by simp
qed

lemma index_of_leftmost:
  assumes "prefix m (drop i s)" and "\<forall>j<i. \<not> prefix m (drop j s)" and "i \<le> length s"
  shows "index_of m s = Some i"
  using assms
proof (induction s arbitrary: i)
  case Nil
  then show ?case by simp
next
  case (Cons c cs)
  show ?case
  proof (cases i)
    case 0
    with Cons.prems show ?thesis by simp
  next
    case (Suc k)
    from Cons.prems(2) Suc have h0: "\<not> prefix m (c # cs)" by force
    from Cons.prems(1) Suc have h1: "prefix m (drop k cs)" by simp
    from Cons.prems(2) Suc have h2: "\<forall>j<k. \<not> prefix m (drop j cs)" by force
    from Cons.prems(3) Suc have h3: "k \<le> length cs" by simp
    from Cons.IH[OF h1 h2 h3] h0 Suc show ?thesis by simp
  qed
qed

lemma js_match_index_of:
  assumes "js_match s = Some (i, m0, n)"
  shows "index_of m0 s = Some i"
proof -
  note d = js_match_SomeD[OF assms]
  from match_here_SomeD[OF d(2)] obtain post where
    dr: "drop i s = ''$('' @ n @ '')'' @ post" and ne: "n \<noteq> []" and np: "CHR '')'' \<notin> set n"
    by blast
  from dr d(1) have p: "prefix m0 (drop i s)" by (simp add: prefix_def)
  have "\<forall>j<i. \<not> prefix m0 (drop j s)"
  proof (intro allI impI notI)
    fix j assume "j < i" and "prefix m0 (drop j s)"
    then have "match_here (drop j s) = Some n"
      using prefix_match_here[of n "drop j s"] ne np d(1) by simp
    with d(4) \<open>j < i\<close> show False by simp
  qed
  with p d(3) show ?thesis by (intro index_of_leftmost) auto
qed

lemma js_match_split:
  assumes "js_match s = Some (i, m0, n)"
  shows "s = take i s @ m0 @ drop (i + length m0) s"
proof -
  note d = js_match_SomeD[OF assms]
  from match_here_SomeD(1)[OF d(2)] obtain post where
    dr: "drop i s = ''$('' @ n @ '')'' @ post" by blast
  with d(1) have "drop i s = m0 @ post" by simp
  then have "drop (length m0) (drop i s) = post" by simp
  then have "drop (i + length m0) s = post" by (simp add: add.commute)
  with \<open>drop i s = m0 @ post\<close> have "drop i s = m0 @ drop (i + length m0) s" by simp
  then show ?thesis by (metis append_take_drop_id)
qed

lemma get_substitution_plain:
  "\<not> dollar_pattern t \<Longrightarrow> get_substitution m p q t = t"
  by (induction m p q t rule: get_substitution.induct) auto

lemma replace_string_at_match:
  assumes "js_match s = Some (i, m0, n)" and "\<not> dollar_pattern r"
  shows "replace_string s m0 r = take i s @ r @ drop (i + length m0) s"
  using js_match_index_of[OF assms(1)] assms(2)
  by (simp add: replace_string_def get_substitution_plain)

lemma drop_length_append: "drop (length xs) (xs @ ys) = ys"
  by simp

lemma reference_at_match_here:
  assumes "reference_at s pre name post"
  shows "match_here (drop (length pre) s) = Some name"
proof -
  from assms have s: "s = pre @ (''$('' @ name @ '')'' @ post)"
    and n: "name \<noteq> []" "CHR '')'' \<notin> set name"
    by (simp_all add: reference_at_def)
  have "drop (length pre) (pre @ (''$('' @ name @ '')'' @ post)) = ''$('' @ name @ '')'' @ post"
    by (rule drop_length_append)
  with s have "drop (length pre) s = ''$('' @ name @ '')'' @ post" by (simp only:)
  with match_here_SomeI[OF n, of post] show ?thesis by (simp only:)
qed

lemma match_here_reference_at:
  assumes "match_here (drop j s) = Some n" and "j \<le> length s"
  shows "\<exists>post. reference_at s (take j s) n post"
proof -
  from match_here_SomeD[OF assms(1)] obtain post where
    "drop j s = ''$('' @ n @ '')'' @ post" "n \<noteq> []" "CHR '')'' \<notin> set n" by blast
  then have "reference_at s (take j s) n post"
    unfolding reference_at_def by (metis append_take_drop_id)
  then show ?thesis ..
qed

lemma no_reference_js_match:
  assumes "\<not> (\<exists>pre name post. reference_at s pre name post)"
  shows "js_match s = None"
proof (rule ccontr)
  assume "js_match s \<noteq> None"
  then obtain i m0 n where "js_match s = Some (i, m0, n)" by (cases "js_match s") auto
  from js_match_SomeD(2,3)[OF this] match_here_reference_at[of i s n] assms
  show False by auto
qed

lemma leftmost_reference_js_match:
  assumes "leftmost_reference s pre name post"
  shows "js_match s = Some (length pre, ''$('' @ name @ '')'', name)"
proof (rule js_match_SomeI)
  from assms have "reference_at s pre name post" by (simp add: leftmost_reference_def)
  then show "match_here (drop (length pre) s) = Some name" by (rule reference_at_match_here)
  show "\<forall>j<length pre. match_here (drop j s) = None"
  proof (intro allI impI, rule ccontr)
    fix j assume j: "j < length pre" and "match_here (drop j s) \<noteq> None"
    then obtain n where n: "match_here (drop j s) = Some n" by auto
    from assms have "length pre \<le> length s"
      by (auto simp: leftmost_reference_def reference_at_def)
    with j have "j \<le> length s" by simp
    from match_here_reference_at[OF n this] obtain post' where
      "reference_at s (take j s) n post'" ..
    with assms have "length pre \<le> length (take j s)"
      unfolding leftmost_reference_def by blast
    with j show False by simp
  qed
qed

lemma replace_loop_no_match:
  "js_match s = None \<Longrightarrow> replace_loop res s = Some (Inr s)"
  by (subst replace_loop.simps) simp

lemma replace_loop_step:
  assumes "js_match s = Some (i, m0, n)" and "map_of res n = Some v" and "truthy v"
    and "\<not> dollar_pattern (to_string v)"
  shows "replace_loop res s = replace_loop res (take i s @ to_string v @ drop (i + length m0) s)"
  using assms replace_string_at_match[OF assms(1,4)]
  by (subst replace_loop.simps) (simp add: get_prop_def js_replace_def)

lemma replace_loop_undefined:
  assumes "js_match s = Some (i, m0, n)" and "\<not> truthy_prop (get_prop res n)"
  shows "replace_loop res s = Some (Inl (UndefinedVariable n))"
  using assms by (subst replace_loop.simps) simp

text \<open>The traversal step on a string leaf.\<close>

lemma resolveFields_string:
  "resolveFields ((k, YStr s) # rest) pfx st =
     (case replaceVariables (YStr s) (resolved st) of
        None \<Rightarrow> None
      | Some (Inl e) \<Rightarrow> Some (Thrown e, st)
      | Some (Inr r) \<Rightarrow>
          resolveFields rest pfx (st\<lparr>resolved := obj_set (pfx @ k) r (resolved st)\<rparr>))"
  by (simp del: replaceVariables.simps split: option.split sum.split)

text \<open>The merge of two mappings, and of anything else.\<close>

lemma deepMerge_maps:
  "deepMerge (YMap as) (YMap bs) =
     YMap (map (\<lambda>kv. (fst kv, case map_of bs (fst kv) of
                                      None \<Rightarrow> snd kv
                                    | Some vb \<Rightarrow> deepMerge (snd kv) vb)) as
           @ filter (\<lambda>kv. fst kv \<notin> fst ` set as) bs)"
  by (subst deepMerge.simps) simp

lemma deepMerge_empty: "deepMerge (YMap []) b = b"
  by (subst deepMerge.simps) (simp split: yaml.splits)

text \<open>The equations that evaluate a run on a concrete document.\<close>

lemmas eval_simps = replace_loop.simps get_prop_def object_prototype_members_def js_replace_def
  replace_string_def call_member_def setOutput_def obj_set_def array_index_def is_digit_def
  dec_nat.simps digit_char_def

section \<open>Resolution of references (claims C1, C2, C5, C7)\<close>

lemma scenario_resolved: "resolveFields scenario_document [] \<lparr>outputs = [], resolved = []\<rparr> =
     Some (Normal, \<lparr>outputs = [],
        resolved = [(''namespace'', YStr ''ns''), (''location'', YStr ''loc''),
                    (''environment'', YStr ''dev''), (''resource_group_name'', YStr ''ns-loc-dev'')]\<rparr>)"
  by (simp add: scenario_document_def replace_loop.simps get_prop_def js_replace_def
      replace_string_def obj_set_def array_index_def is_digit_def)

lemma falsy_reference_run:
  "resolveFields [(''a'', YStr []), (''b'', YStr ''$(a)'')] [] \<lparr>outputs = [], resolved = []\<rparr> =
     Some (Thrown (UndefinedVariable ''a''), \<lparr>outputs = [], resolved = [(''a'', YStr [])]\<rparr>)"
  by (simp add: replace_loop.simps get_prop_def obj_set_def array_index_def)

lemma dollar_value_run:
  "resolveFields [(''a'', YStr ''$$''), (''b'', YStr ''$(a)'')] [] \<lparr>outputs = [], resolved = []\<rparr> =
     Some (Normal, \<lparr>outputs = [], resolved = [(''a'', YStr ''$$''), (''b'', YStr ''$'')]\<rparr>)"
  by (simp add: eval_simps)

text \<open>
  Claim C1, as stated, fails. In the document \<^verbatim>\<open>{a: "", b: "$(a)"}\<close> the reference of
  \<^verbatim>\<open>b\<close> is to a key already written to the Resolved Map, and flattening does not
  resolve the string: it fails, the empty string being falsy. In the document
  \<^verbatim>\<open>{a: "$$", b: "$(a)"}\<close> the reference is not replaced by the string form of the
  value: \<^verbatim>\<open>replace\<close> expands \<^verbatim>\<open>$$\<close> to one dollar sign and \<^verbatim>\<open>b\<close> resolves to
  \<^verbatim>\<open>$\<close>.
\<close>

theorem written_key_not_resolved:
  "map_of [(''a'', YStr [])] ''a'' = Some (YStr [])
   \<and> resolveFields [(''a'', YStr []), (''b'', YStr ''$(a)'')] [] \<lparr>outputs = [], resolved = []\<rparr> =
     Some (Thrown (UndefinedVariable ''a''), \<lparr>outputs = [], resolved = [(''a'', YStr [])]\<rparr>)
   \<and> resolveFields [(''a'', YStr ''$$''), (''b'', YStr ''$(a)'')] [] \<lparr>outputs = [], resolved = []\<rparr> =
     Some (Normal, \<lparr>outputs = [], resolved = [(''a'', YStr ''$$''), (''b'', YStr ''$'')]\<rparr>)"
  using falsy_reference_run dollar_value_run by simp

lemma replaceVariables_no_reference:
  assumes "\<not> (\<exists>pre name post. reference_at s pre name post)"
  shows "replaceVariables (YStr s) res = Some (Inr (YStr s))"
proof -
  from assms have "js_match s = None" by (rule no_reference_js_match)
  then show ?thesis by (simp add: replace_loop_no_match)
qed

lemma replaceVariables_leftmost:
  assumes l: "leftmost_reference s pre name post"
    and v: "map_of res name = Some v" "truthy v" "\<not> dollar_pattern (to_string v)"
  shows "replaceVariables (YStr s) res = replaceVariables (YStr (pre @ to_string v @ post)) res"
proof -
  from l have m: "js_match s = Some (length pre, ''$('' @ name @ '')'', name)"
    by (rule leftmost_reference_js_match)
  from l have s: "s = pre @ ''$('' @ name @ '')'' @ post"
    by (simp add: leftmost_reference_def reference_at_def)
  have "take (length pre) s = pre" using s by simp
  moreover have "drop (length pre + length (''$('' @ name @ '')'')) s = post"
  proof -
    have "s = (pre @ (''$('' @ name @ '')'')) @ post" using s by simp
    then have "drop (length (pre @ (''$('' @ name @ '')''))) s = post"
      by (simp only: drop_length_append)
    then show ?thesis by (simp only: length_append)
  qed
  ultimately have "replace_loop res s = replace_loop res (pre @ to_string v @ post)"
    using replace_loop_step[OF m v] by simp
  then show ?thesis by simp
qed

lemma js_match_exists:
  "match_here (drop j s) = Some n \<Longrightarrow> js_match s \<noteq> None"
proof (induction s arbitrary: j)
  case Nil
  then show ?case by simp
next
  case (Cons c cs)
  show ?case
  proof (cases j)
    case 0
    with Cons.prems show ?thesis by simp
  next
    case (Suc k)
    with Cons.prems have "match_here (drop k cs) = Some n" by simp
    from Cons.IH[OF this] show ?thesis by (auto split: option.splits)
  qed
qed

lemma js_match_None_no_reference:
  assumes "js_match s = None"
  shows "\<not> (\<exists>pre name post. reference_at s pre name post)"
proof
  assume "\<exists>pre name post. reference_at s pre name post"
  then obtain pre name post where "reference_at s pre name post" by blast
  from js_match_exists[OF reference_at_match_here[OF this]] assms show False by simp
qed

lemma js_match_leftmost_reference:
  assumes "js_match s = Some (i, m0, n)"
  shows "leftmost_reference s (take i s) n (drop (i + length m0) s)"
proof -
  note d = js_match_SomeD[OF assms]
  from match_here_SomeD[OF d(2)] have n: "n \<noteq> []" "CHR '')'' \<notin> set n" by simp_all
  from js_match_split[OF assms] d(1)
  have "s = take i s @ ''$('' @ n @ '')'' @ drop (i + length m0) s" by simp
  with n have r: "reference_at s (take i s) n (drop (i + length m0) s)"
    unfolding reference_at_def by simp
  have "length (take i s) \<le> length pre'" if "reference_at s pre' name' post'" for pre' name' post'
  proof (rule ccontr)
    assume "\<not> length (take i s) \<le> length pre'"
    with d(3) have "length pre' < i" by simp
    with d(4) have "match_here (drop (length pre') s) = None" by simp
    with reference_at_match_here[OF that] show False by simp
  qed
  with r show ?thesis unfolding leftmost_reference_def by blast
qed

text \<open>
  Where the rescanning of the specification ends with \<open>t\<close>, \<^verbatim>\<open>replaceVariables\<close>
  returns \<open>t\<close>, and no pattern remains in \<open>t\<close>.
\<close>

lemma resolves_replaceVariables:
  "resolves res s t \<Longrightarrow> replaceVariables (YStr s) res = Some (Inr (YStr t))"
proof (induction rule: resolves.induct)
  case (finished s)
  then show ?case by (rule replaceVariables_no_reference)
next
  case (rescan s pre name post v t)
  from replaceVariables_leftmost[OF rescan.hyps(1,2,3,4)] rescan.IH show ?case by (simp only:)
qed

lemma resolves_no_reference:
  "resolves res s t \<Longrightarrow> \<not> (\<exists>pre name post. reference_at t pre name post)"
  by (induction rule: resolves.induct)

text \<open>
  Claim C1, amended: for every string value whose references, and those the rescanning
  meets after them, are only to keys already written to the Resolved Map with a truthy
  value whose string form holds none of \<^verbatim>\<open>$$\<close>, \<^verbatim>\<open>$&\<close>, \<^verbatim>\<open>$`\<close>, \<^verbatim>\<open>$'\<close>, flattening
  writes under the key of the string the text \<open>t\<close> that the rescanning of the
  specification ends with (the leftmost occurrence of the pattern replaced by the
  string form of the looked-up value, again and again, until no pattern remains), and
  no pattern remains in \<open>t\<close>; and the flat document of the scenario resolves to the map
  \<^verbatim>\<open>{namespace: "ns", location: "loc", environment: "dev", resource_group_name: "ns-loc-dev"}\<close>.
\<close>

theorem resolve_by_rescanning:
  "(resolves (resolved st) s t \<longrightarrow>
      resolveFields ((k, YStr s) # rest) pfx st =
        resolveFields rest pfx (st\<lparr>resolved := obj_set (pfx @ k) (YStr t) (resolved st)\<rparr>)
      \<and> \<not> (\<exists>pre name post. reference_at t pre name post))
   \<and> resolveFields scenario_document [] \<lparr>outputs = [], resolved = []\<rparr> =
     Some (Normal, \<lparr>outputs = [],
        resolved = [(''namespace'', YStr ''ns''), (''location'', YStr ''loc''),
                    (''environment'', YStr ''dev''), (''resource_group_name'', YStr ''ns-loc-dev'')]\<rparr>)"
proof (intro conjI impI)
  assume r: "resolves (resolved st) s t"
  then have "replaceVariables (YStr s) (resolved st) = Some (Inr (YStr t))"
    by (rule resolves_replaceVariables)
  then show "resolveFields ((k, YStr s) # rest) pfx st =
        resolveFields rest pfx (st\<lparr>resolved := obj_set (pfx @ k) (YStr t) (resolved st)\<rparr>)"
    by (simp only: resolveFields_string option.case sum.case)
  from r show "\<not> (\<exists>pre name post. reference_at t pre name post)"
    by (rule resolves_no_reference)
next
  show "resolveFields scenario_document [] \<lparr>outputs = [], resolved = []\<rparr> =
     Some (Normal, \<lparr>outputs = [],
        resolved = [(''namespace'', YStr ''ns''), (''location'', YStr ''loc''),
                    (''environment'', YStr ''dev''), (''resource_group_name'', YStr ''ns-loc-dev'')]\<rparr>)"
    by (rule scenario_resolved)
qed

text \<open>
  With the Resolved Map \<^verbatim>\<open>{a: "v", n: 5}\<close> the rescanning takes the string
  \<^verbatim>\<open>$(a)-$(n)\<close> to \<^verbatim>\<open>v-$(n)\<close> and then to \<^verbatim>\<open>v-5\<close>.
\<close>

lemma resolves_example:
  "resolves [(''a'', YStr ''v''), (''n'', YNum ''5'')] ''$(a)-$(n)'' ''v-5''"
proof -
  let ?res = "[(''a'', YStr ''v''), (''n'', YNum ''5'')]"
  have "js_match ''v-5'' = None" by simp
  then have "resolves ?res ''v-5'' ''v-5''"
    by (intro resolves.finished js_match_None_no_reference)
  moreover have "js_match ''v-$(n)'' = Some (2, ''$(n)'', ''n'')" by simp
  from js_match_leftmost_reference[OF this]
  have "leftmost_reference ''v-$(n)'' ''v-'' ''n'' []" by simp
  ultimately have "resolves ?res ''v-$(n)'' ''v-5''"
    using resolves.rescan[of "''v-$(n)''" "''v-''" "''n''" "[]" ?res "YNum ''5''" "''v-5''"]
    by simp
  moreover have "js_match ''$(a)-$(n)'' = Some (0, ''$(a)'', ''a'')" by simp
  from js_match_leftmost_reference[OF this]
  have "leftmost_reference ''$(a)-$(n)'' [] ''a'' ''-$(n)''" by simp
  ultimately show ?thesis
    using resolves.rescan[of "''$(a)-$(n)''" "[]" "''a''" "''-$(n)''" ?res "YStr ''v''" "''v-5''"]
    by simp
qed

theorem resolve_by_rescanning_witness:
  "resolves (resolved \<lparr>outputs = [], resolved = [(''a'', YStr ''v''), (''n'', YNum ''5'')]\<rparr>)
      ''$(a)-$(n)'' ''v-5''
   \<and> resolveFields [(''b'', YStr ''$(a)-$(n)'')] []
        \<lparr>outputs = [], resolved = [(''a'', YStr ''v''), (''n'', YNum ''5'')]\<rparr> =
       Some (Normal, \<lparr>outputs = [],
          resolved = [(''a'', YStr ''v''), (''n'', YNum ''5''), (''b'', YStr ''v-5'')]\<rparr>)"
proof -
  let ?st = "\<lparr>outputs = [], resolved = [(''a'', YStr ''v''), (''n'', YNum ''5'')]\<rparr>"
  have r: "resolves (resolved ?st) ''$(a)-$(n)'' ''v-5''"
    using resolves_example by simp
  with resolve_by_rescanning[where st = ?st and s = "''$(a)-$(n)''" and t = "''v-5''"
      and k = "''b''" and rest = "[]" and pfx = "[]"]
  have "resolveFields [(''b'', YStr ''$(a)-$(n)'')] [] ?st =
          resolveFields [] [] (?st\<lparr>resolved := obj_set ([] @ ''b'') (YStr ''v-5'') (resolved ?st)\<rparr>)"
    by blast
  then have "resolveFields [(''b'', YStr ''$(a)-$(n)'')] [] ?st =
       Some (Normal, \<lparr>outputs = [],
          resolved = [(''a'', YStr ''v''), (''n'', YNum ''5''), (''b'', YStr ''v-5'')]\<rparr>)"
    by (simp add: obj_set_def array_index_def is_digit_def del: resolveFields.simps(2))
  with r show ?thesis by simp
qed

lemma undefined_reference_fails:
  assumes "js_match s = Some (i, m0, name)"
    and "(map_of res name = None \<and> name \<notin> set object_prototype_members)
         \<or> (\<exists>v. map_of res name = Some v \<and> \<not> truthy v)"
  shows "replaceVariables (YStr s) res = Some (Inl (UndefinedVariable name))"
proof -
  from assms(2) have "\<not> truthy_prop (get_prop res name)" by (auto simp: get_prop_def)
  from replace_loop_undefined[OF assms(1) this] show ?thesis by simp
qed

text \<open>The message of the error holds the name of the variable.\<close>

lemma undefined_message_names_variable:
  "\<exists>a b. undefined_message name = a @ name @ b"
  unfolding undefined_message_def by (metis append.assoc)

lemma inherited_member_run:
  "resolveFields [(''a'', YStr ''$(toString)'')] [] \<lparr>outputs = [], resolved = []\<rparr> =
     Some (Normal, \<lparr>outputs = [], resolved = [(''a'', YStr ''[object Undefined]'')]\<rparr>)"
  by (simp add: eval_simps)

text \<open>
  Claim C2 says that a reference to a name absent from the Resolved Map fails with the
  undefined-variable error. The lemma \<open>undefined_reference_fails\<close> proves it for every
  name that \<^verbatim>\<open>Object.prototype\<close> has no member of, and for every name present with a
  falsy value. For the name \<^verbatim>\<open>toString\<close> the code does otherwise: the read
  \<^verbatim>\<open>resolved["toString"]\<close> finds the inherited function, which is truthy, and the
  document \<^verbatim>\<open>{a: "$(toString)"}\<close> resolves without an error.
\<close>

theorem inherited_name_is_not_undefined:
  "map_of [] ''toString'' = (None :: yaml option)
   \<and> resolveFields [(''a'', YStr ''$(toString)'')] [] \<lparr>outputs = [], resolved = []\<rparr> =
     Some (Normal, \<lparr>outputs = [], resolved = [(''a'', YStr ''[object Undefined]'')]\<rparr>)"
  using inherited_member_run by simp

lemma fixed_point_never_returns:
  assumes fp: "js_match s0 = Some (i, m0, n)" "truthy_prop (get_prop res0 n)"
      "js_replace s0 m0 (get_prop res0 n) = Inr s0"
    and ret: "replace_loop res s = Some r"
  shows "res = res0 \<longrightarrow> s \<noteq> s0"
proof (rule replace_loop.raw_induct[where P = "\<lambda>res s r. res = res0 \<longrightarrow> s \<noteq> s0", OF _ ret])
  fix f :: "obj \<Rightarrow> string \<Rightarrow> (error + string) option" and res s r
  assume ih: "\<And>res s r. f res s = Some r \<Longrightarrow> res = res0 \<longrightarrow> s \<noteq> s0"
    and body: "(case js_match s of
        None \<Rightarrow> Some (Inr s)
      | Some (idx, m0, varName) \<Rightarrow>
          if \<not> truthy_prop (get_prop res varName)
          then Some (Inl (UndefinedVariable varName))
          else (case js_replace s m0 (get_prop res varName) of
                  Inl e \<Rightarrow> Some (Inl e)
                | Inr v' \<Rightarrow> f res v')) = Some r"
  show "res = res0 \<longrightarrow> s \<noteq> s0"
  proof (intro impI notI)
    assume r: "res = res0" and s: "s = s0"
    from body r s fp have "f res s = Some r" by simp
    from ih[OF this] r s show False by simp
  qed
qed

text \<open>
  A string that the replacement of its leftmost reference leaves as it is makes the
  loop run forever.
\<close>

lemma fixed_point_loops:
  assumes "js_match s = Some (i, m0, n)" and "truthy_prop (get_prop res n)"
    and "js_replace s m0 (get_prop res n) = Inr s"
  shows "replace_loop res s = None"
proof (rule ccontr)
  assume "replace_loop res s \<noteq> None"
  then obtain y where "replace_loop res s = Some y" by auto
  from fixed_point_never_returns[OF assms this] show False by simp
qed

text \<open>
  Two documents the action can be given make the loop run forever that way: one with
  a value \<^verbatim>\<open>$&\<close>, which \<^verbatim>\<open>replace\<close> expands to the matched reference, and one with a
  reference to \<^verbatim>\<open>constructor\<close>, which reads the inherited function \<^verbatim>\<open>Object\<close>.
\<close>

lemma matched_text_pattern_loops:
  "replace_loop [(''a'', YStr ''$&'')] ''$(a)'' = None"
  by (rule fixed_point_loops[of _ 0 "''$(a)''" "''a''"]) (simp_all add: eval_simps)

lemma constructor_reference_loops:
  "replace_loop [] ''$(constructor)'' = None"
  by (rule fixed_point_loops[of _ 0 "''$(constructor)''" "''constructor''"])
     (simp_all add: eval_simps)

lemma matched_text_value_run:
  "resolveFields [(''a'', YStr ''$&''), (''b'', YStr ''$(a)'')] [] \<lparr>outputs = evs, resolved = []\<rparr> = None"
proof -
  have "replaceVariables (YStr ''$&'') [] = Some (Inr (YStr ''$&''))"
    by (simp add: replace_loop_no_match)
  moreover have "obj_set ''a'' (YStr ''$&'') [] = [(''a'', YStr ''$&'')]"
    by (simp add: obj_set_def array_index_def is_digit_def)
  moreover have "replaceVariables (YStr ''$(a)'') [(''a'', YStr ''$&'')] = None"
    by (simp add: matched_text_pattern_loops)
  ultimately show ?thesis
    by (simp only: resolveFields_string option.case sum.case append_Nil
        run_state.simps run_state.update_convs)
qed

lemma constructor_reference_run:
  "resolveFields [(''a'', YStr ''$(constructor)'')] [] \<lparr>outputs = evs, resolved = []\<rparr> = None"
proof -
  have "replaceVariables (YStr ''$(constructor)'') [] = None"
    by (simp add: constructor_reference_loops)
  then show ?thesis
    by (simp only: resolveFields_string option.case run_state.simps)
qed

lemma single_document_run:
  "main regexp [Document (YMap kvs)] keyPathPattern envVarPrefix =
     (case resolveFields kvs [] \<lparr>outputs = pattern_info keyPathPattern, resolved = []\<rparr> of
        None \<Rightarrow> None
      | Some (Thrown e, st) \<Rightarrow> Some (outputs st @ [SetFailed e])
      | Some (Normal, st) \<Rightarrow>
          (case compile_pattern regexp keyPathPattern of
             None \<Rightarrow> Some (outputs st @ [SetFailed SyntaxError])
           | Some reKPP \<Rightarrow>
               Some (outputs st
                     @ emit_resolved reKPP keyPathPattern envVarPrefix (resolved st))))"
  by (simp add: main_def deepMerge_empty)

text \<open>
  Claim C5 says that the loop terminates on every string, returning or failing with the
  undefined-variable error. On two documents the action can be given it never returns,
  and the run with it: in \<^verbatim>\<open>{a: "$&", b: "$(a)"}\<close> the reference of \<^verbatim>\<open>b\<close> is to a key
  already written, and its replacement, the value \<^verbatim>\<open>$&\<close>, is expanded by \<^verbatim>\<open>replace\<close>
  to the matched text \<^verbatim>\<open>$(a)\<close>, so the string stays as it is; in
  \<^verbatim>\<open>{a: "$(constructor)"}\<close> the reference is to a name that no key has, and the read
  \<^verbatim>\<open>resolved["constructor"]\<close> finds the inherited function \<^verbatim>\<open>Object\<close>, which
  \<^verbatim>\<open>replace\<close> calls and which returns the matched text.
\<close>

theorem substitution_loop_never_returns:
  "main regexp [Document (YMap [(''a'', YStr ''$&''), (''b'', YStr ''$(a)'')])]
        keyPathPattern envVarPrefix = None
   \<and> replace_loop [(''a'', YStr ''$&'')] ''$(a)'' = None
   \<and> main regexp [Document (YMap [(''a'', YStr ''$(constructor)'')])]
        keyPathPattern envVarPrefix = None
   \<and> replace_loop [] ''$(constructor)'' = None"
  by (simp only: single_document_run matched_text_value_run constructor_reference_run
      matched_text_pattern_loops constructor_reference_loops option.case)

lemma null_run:
  "resolveFields [(''a'', YNull)] [] \<lparr>outputs = [], resolved = []\<rparr> =
     Some (Normal, \<lparr>outputs = [], resolved = [(''a'', YMap [])]\<rparr>)"
  by (simp add: eval_simps)


text \<open>
  Claim C7 says that a null leaf is written unchanged, as a number or a boolean is
  (lemma \<open>scalar_leaf_unchanged\<close>). For null the code does otherwise:
  \<^verbatim>\<open>typeof null\<close> is \<^verbatim>\<open>"object"\<close>, so \<^verbatim>\<open>replaceVariables\<close> takes its first branch
  and returns the empty object. The document \<^verbatim>\<open>{a: null}\<close> gives the Resolved Map
  \<^verbatim>\<open>{a: {}}\<close>.
\<close>

theorem null_leaf_becomes_empty_object:
  "replaceVariables YNull [] = Some (Inr (YMap []))
   \<and> resolveFields [(''a'', YNull)] [] \<lparr>outputs = [], resolved = []\<rparr> =
     Some (Normal, \<lparr>outputs = [], resolved = [(''a'', YMap [])]\<rparr>)"
  using null_run by simp

section \<open>Outputs of the traversal\<close>

lemma resolveFields_outputs:
  "resolveFields es pfx st = Some (c, st') \<Longrightarrow>
     (\<exists>zs. outputs st @ array_marks pfx es = outputs st' @ zs) \<and>
     (\<exists>ys. outputs st' = outputs st @ ys) \<and>
     (c = Normal \<longrightarrow> outputs st' = outputs st @ array_marks pfx es)"
proof (induction es pfx st arbitrary: c st' rule: resolveFields.induct)
  case (1 pfx st)
  then show ?case by simp
next
  case (2 kv rest pfx st)
  show ?case
  proof (cases "typeof_object (snd kv) \<and> snd kv \<noteq> YNull")
    case True
    let ?st1 = "if isArray (snd kv) then setOutput (pfx @ fst kv @ ''.array'') (snd kv) st else st"
    let ?m1 = "if isArray (snd kv) then [SetOutput (pfx @ fst kv @ ''.array'') (snd kv)] else []"
    have o1: "outputs ?st1 = outputs st @ ?m1" by (simp add: setOutput_def)
    from "2.prems" True obtain c1 st1 where
      r1: "resolveFields (entries (snd kv)) (pfx @ fst kv @ ''.'') ?st1 = Some (c1, st1)"
      by (cases "resolveFields (entries (snd kv)) (pfx @ fst kv @ ''.'') ?st1") auto
    note ih1 = "2.IH"(1)[OF True r1]
    show ?thesis
    proof (cases c1)
      case Normal
      with "2.prems" True r1 have r2: "resolveFields rest pfx st1 = Some (c, st')" by simp
      note ih2 = "2.IH"(2)[OF True r1 refl Normal r2]
      from ih1 Normal have e1: "outputs st1 = outputs ?st1 @ array_marks (pfx @ fst kv @ ''.'') (entries (snd kv))"
        by simp
      from ih2 e1 o1 True show ?thesis by auto
    next
      case (Thrown e)
      with "2.prems" True r1 have eq: "c = Thrown e" "st' = st1" by simp_all
      from ih1 obtain zs ys where
        z: "outputs ?st1 @ array_marks (pfx @ fst kv @ ''.'') (entries (snd kv)) = outputs st1 @ zs"
        and y: "outputs st1 = outputs ?st1 @ ys" by blast
      have "outputs st @ array_marks pfx (kv # rest) = outputs st' @ (zs @ array_marks pfx rest)"
        using z o1 True eq by simp
      moreover have "outputs st' = outputs st @ (?m1 @ ys)" using y o1 eq by simp
      ultimately show ?thesis using eq by blast
    qed
  next
    case False
    show ?thesis
    proof (cases "replaceVariables (snd kv) (resolved st)")
      case None
      with "2.prems" False show ?thesis by simp
    next
      case (Some a)
      show ?thesis
      proof (cases a)
        case (Inl e)
        with "2.prems" False Some show ?thesis by auto
      next
        case (Inr r)
        let ?st2 = "st\<lparr>resolved := obj_set (pfx @ fst kv) r (resolved st)\<rparr>"
        from "2.prems" False Some Inr have r2: "resolveFields rest pfx ?st2 = Some (c, st')" by simp
        have am: "array_marks pfx (kv # rest) = array_marks pfx rest"
          using False by auto
        from "2.IH"(3)[OF False Some Inr r2] show ?thesis unfolding am by simp
      qed
    qed
  qed
qed

lemma array_marks_shape:
  "ev \<in> set (array_marks pfx es) \<Longrightarrow> \<exists>p xs. ev = SetOutput (p @ ''.array'') (YSeq xs)"
proof (induction pfx es rule: array_marks.induct)
  case (1 pfx)
  then show ?case by simp
next
  case (2 pfx kv rest)
  show ?case
  proof (cases "typeof_object (snd kv) \<and> snd kv \<noteq> YNull")
    case True
    from "2.prems" True consider
      "isArray (snd kv)" "ev = SetOutput (pfx @ fst kv @ ''.array'') (snd kv)"
      | "ev \<in> set (array_marks (pfx @ fst kv @ ''.'') (entries (snd kv)))"
      | "ev \<in> set (array_marks pfx rest)"
      by (auto split: if_splits)
    then show ?thesis
    proof cases
      case 1
      from 1(1) obtain xs where "snd kv = YSeq xs" by (cases "snd kv") auto
      with 1(2) have "ev = SetOutput ((pfx @ fst kv) @ ''.array'') (YSeq xs)" by simp
      then show ?thesis by blast
    next
      case 2
      with "2.IH"(1)[OF True] show ?thesis by simp
    next
      case 3
      with "2.IH"(2) show ?thesis by simp
    qed
  next
    case False
    then have am: "array_marks pfx (kv # rest) = array_marks pfx rest"
      by auto
    from "2.prems" have "ev \<in> set (array_marks pfx rest)" unfolding am .
    then show ?thesis by (rule "2.IH"(2))
  qed
qed

section \<open>Failing runs (claim C4)\<close>

lemma array_marks_is_array_output:
  "ev \<in> set (array_marks pfx es) \<Longrightarrow> is_array_output ev"
  by (auto dest!: array_marks_shape simp: is_array_output_def suffix_def)

lemma pattern_info_is_info: "ev \<in> set (pattern_info k) \<Longrightarrow> is_info ev"
  by (auto simp: pattern_info_def is_info_def split: if_splits)

lemma load_files_events:
  "load_files fs kpp m evs = (c, m', evs') \<Longrightarrow>
     \<exists>infos. evs' = evs @ infos \<and> (\<forall>ev\<in>set infos. is_info ev)"
proof (induction fs kpp m evs rule: load_files.induct)
  case (1 keyPathPattern mergedConfig evs)
  then show ?case by simp
next
  case (2 msg fs keyPathPattern mergedConfig evs)
  then show ?case by simp
next
  case (3 msg fs keyPathPattern mergedConfig evs)
  then show ?case by (auto dest: pattern_info_is_info)
next
  case (4 d fs keyPathPattern mergedConfig evs)
  from "4.IH"[OF "4.prems"[simplified]] obtain infos where
    "evs' = (evs @ pattern_info keyPathPattern) @ infos" "\<forall>ev\<in>set infos. is_info ev" by blast
  then have "evs' = evs @ (pattern_info keyPathPattern @ infos)"
    "\<forall>ev\<in>set (pattern_info keyPathPattern @ infos). is_info ev"
    by (auto dest: pattern_info_is_info)
  then show ?case by blast
qed

lemma emit_resolved_no_failure: "SetFailed e \<notin> set (emit_resolved m k p res)"
  by (auto simp: emit_resolved_def emit_entry_def export_events_def split: if_splits)

lemma traversal_events:
  assumes "resolveFields es pfx st = Some (c, st')"
    and "\<forall>ev\<in>set (outputs st). is_info ev \<or> is_array_output ev"
  shows "\<forall>ev\<in>set (outputs st'). is_info ev \<or> is_array_output ev"
proof -
  from resolveFields_outputs[OF assms(1)] obtain zs where
    "outputs st @ array_marks pfx es = outputs st' @ zs" by blast
  then have "set (outputs st') \<subseteq> set (outputs st) \<union> set (array_marks pfx es)"
    by (metis set_append Un_upper1)
  with assms(2) show ?thesis by (auto dest: array_marks_is_array_output)
qed

lemma failing_run:
  "main literal_regexp
     [Document (YMap [(''a'', YSeq [YStr ''x'']), (''b'', YStr ''$(nope)'')])] [] [] =
   Some [SetOutput ''a.array'' (YSeq [YStr ''x'']), SetFailed (UndefinedVariable ''nope'')]"
  by (simp add: main_def deepMerge_empty pattern_info_def compile_pattern_def
      replace_loop.simps get_prop_def object_prototype_members_def emit_resolved_def
      setOutput_def obj_set_def array_index_def is_digit_def dec_nat.simps digit_char_def)

text \<open>
  Claim C4, as stated, fails: the document \<^verbatim>\<open>{a: ["x"], b: "$(nope)"}\<close> makes the run
  fail at \<^verbatim>\<open>b\<close>, and the Emitter has received the pair \<^verbatim>\<open>a.array\<close> by then.
\<close>

theorem failed_run_keeps_array_output:
  "main literal_regexp
     [Document (YMap [(''a'', YSeq [YStr ''x'']), (''b'', YStr ''$(nope)'')])] [] [] =
   Some [SetOutput ''a.array'' (YSeq [YStr ''x'']), SetFailed (UndefinedVariable ''nope'')]"
  by (rule failing_run)

text \<open>
  Claim C4, amended: in every run that fails, for any kind of error, no entry of the
  Resolved Map is emitted and no environment variable is exported; what the Emitter
  has received before the failure are log messages and the whole-array outputs
  \<^verbatim>\<open>p.array\<close>, each carrying a sequence, of the sequences visited before the failure.
\<close>

theorem failed_run_emits_no_entry:
  assumes "main regexp configFiles keyPathPattern envVarPrefix = Some (evs @ [SetFailed e])"
  shows "\<forall>ev\<in>set evs. is_info ev \<or> is_array_output ev"
proof -
  obtain c mergedConfig evs0 where
    l: "load_files configFiles keyPathPattern (YMap []) [] = (c, mergedConfig, evs0)"
    by (cases "load_files configFiles keyPathPattern (YMap []) []") auto
  from load_files_events[OF l] have i0: "\<forall>ev\<in>set evs0. is_info ev" by auto
  show ?thesis
  proof (cases c)
    case (Thrown e0)
    with assms l have "evs = evs0" by (simp add: main_def)
    with i0 show ?thesis by simp
  next
    case Normal
    show ?thesis
    proof (cases "object_entries mergedConfig")
      case (Inl e0)
      with assms l Normal have "evs = evs0" by (simp add: main_def)
      with i0 show ?thesis by simp
    next
      case (Inr es)
      let ?st = "\<lparr>outputs = evs0, resolved = []\<rparr>"
      from assms l Normal Inr obtain c1 st1 where
        r: "resolveFields es [] ?st = Some (c1, st1)"
        by (cases "resolveFields es [] ?st") (auto simp: main_def)
      from traversal_events[OF r] i0
      have t: "\<forall>ev\<in>set (outputs st1). is_info ev \<or> is_array_output ev" by simp
      show ?thesis
      proof (cases c1)
        case (Thrown e1)
        with assms l Normal Inr r have "evs = outputs st1" by (simp add: main_def)
        with t show ?thesis by simp
      next
        case Normal1: Normal
        show ?thesis
        proof (cases "compile_pattern regexp keyPathPattern")
          case None
          with assms l Normal Inr r Normal1 have "evs = outputs st1" by (simp add: main_def)
          with t show ?thesis by simp
        next
          case (Some reKPP)
          with assms l Normal Inr r Normal1
          have "outputs st1 @ emit_resolved reKPP keyPathPattern envVarPrefix (resolved st1)
                  = evs @ [SetFailed e]"
            by (simp add: main_def)
          then have "SetFailed e \<in> set (outputs st1)
                     \<union> set (emit_resolved reKPP keyPathPattern envVarPrefix (resolved st1))"
            by (metis set_append in_set_conv_decomp)
          with t emit_resolved_no_failure show ?thesis
            by (auto simp: is_info_def is_array_output_def)
        qed
      qed
    qed
  qed
qed


theorem failed_run_emits_no_entry_witness:
  "main literal_regexp
     [Document (YMap [(''a'', YSeq [YStr ''x'']), (''b'', YStr ''$(nope)'')])] [] [] =
   Some ([SetOutput ''a.array'' (YSeq [YStr ''x''])] @ [SetFailed (UndefinedVariable ''nope'')])
   \<and> (is_info (SetOutput ''a.array'' (YSeq [YStr ''x''])) \<or>
        is_array_output (SetOutput ''a.array'' (YSeq [YStr ''x''])))"
proof -
  have m: "main literal_regexp
     [Document (YMap [(''a'', YSeq [YStr ''x'']), (''b'', YStr ''$(nope)'')])] [] [] =
   Some ([SetOutput ''a.array'' (YSeq [YStr ''x''])] @ [SetFailed (UndefinedVariable ''nope'')])"
    using failing_run by simp
  from failed_run_emits_no_entry[OF m] m show ?thesis by simp
qed

section \<open>Sequences (claims C6, C10)\<close>













lemma array_marks_strings: "array_marks p (indexed i (map YStr ss)) = []"
  by (induction ss arbitrary: i) simp_all






section \<open>The key-path filter (claim C8)\<close>

lemma output_pairs_append: "output_pairs (xs @ ys) = output_pairs xs @ output_pairs ys"
  by (induction xs rule: output_pairs.induct) auto

lemma output_pairs_export: "output_pairs (export_events p k v) = []"
  by (simp add: export_events_def)

lemma output_pairs_emit_entry:
  "keyPathPattern \<noteq> [] \<Longrightarrow>
   output_pairs (emit_entry reKPP keyPathPattern envVarPrefix kv) =
     (if has_match reKPP (fst kv) then [(remove_matches reKPP (fst kv) 0, snd kv)] else [])"
  by (simp add: emit_entry_def output_pairs_export)

text \<open>
  The steps of the global deletion: a character where no match that is not empty
  starts is kept, and a match that is not empty is jumped over.
\<close>

lemma remove_matches_skip:
  assumes "\<not> nonempty_match m s k" and "k < length s"
  shows "remove_matches m s k = s ! k # remove_matches m s (Suc k)"
  using assms by (subst remove_matches.simps) (auto simp: nonempty_match_def split: option.splits)

lemma remove_matches_end:
  assumes "\<not> nonempty_match m s k" and "length s \<le> k"
  shows "remove_matches m s k = []"
  using assms by (subst remove_matches.simps) (auto simp: nonempty_match_def split: option.splits)

lemma remove_matches_jump:
  assumes "m s i = Some e" and "i < e" and "i \<le> length s"
  shows "remove_matches m s i = remove_matches m s e"
  using assms by (subst remove_matches.simps) simp

lemma remove_matches_until:
  assumes "\<forall>j. k \<le> j \<and> j < i \<longrightarrow> \<not> nonempty_match m s j" and "k \<le> i" and "i \<le> length s"
  shows "remove_matches m s k = take (i - k) (drop k s) @ remove_matches m s i"
  using assms
proof (induction "i - k" arbitrary: k)
  case 0
  then show ?case by simp
next
  case (Suc d)
  from Suc.hyps(2) Suc.prems(2) have lt: "k < i" by simp
  with Suc.prems(1) have none: "\<not> nonempty_match m s k" by simp
  from lt Suc.prems(3) have kl: "k < length s" by simp
  from Suc.hyps(2) have d: "d = i - Suc k" by simp
  have ih: "remove_matches m s (Suc k) = take (i - Suc k) (drop (Suc k) s) @ remove_matches m s i"
    using Suc.hyps(1)[OF d] Suc.prems lt by simp
  have "drop k s = s ! k # drop (Suc k) s" using kl by (simp add: Cons_nth_drop_Suc)
  moreover have "i - k = Suc (i - Suc k)" using lt by simp
  ultimately have "take (i - k) (drop k s) = s ! k # take (i - Suc k) (drop (Suc k) s)"
    by simp
  with remove_matches_skip[OF none kl] ih show ?case by simp
qed

lemma deleted_from_remove_matches:
  "deleted_from m s k out \<Longrightarrow> out = remove_matches m s k"
proof (induction rule: deleted_from.induct)
  case (kept k)
  show ?case
  proof (cases "k \<le> length s")
    case True
    with kept have "remove_matches m s k
        = take (length s - k) (drop k s) @ remove_matches m s (length s)"
      by (intro remove_matches_until) simp_all
    moreover from kept True have "remove_matches m s (length s) = []"
      by (intro remove_matches_end) simp_all
    ultimately show ?thesis by simp
  next
    case False
    then show ?thesis by (subst remove_matches.simps) simp
  qed
next
  case (cut k i e out)
  from remove_matches_until[OF cut.hyps(3,1,2)] remove_matches_jump[of m s i e, OF cut.hyps(4,5,2)] cut.IH
  show ?case by simp
qed

lemma deleted_from_extend:
  assumes "deleted_from m s (Suc k) out" and "\<not> nonempty_match m s k" and "k < length s"
  shows "deleted_from m s k (s ! k # out)"
  using assms(1)
proof (cases rule: deleted_from.cases)
  case kept
  from kept(2) assms(2) have "\<forall>j. k \<le> j \<and> j \<le> length s \<longrightarrow> \<not> nonempty_match m s j"
    by (metis Suc_leI le_neq_implies_less)
  from deleted_from.kept[OF this] kept(1) assms(3) show ?thesis
    by (simp add: Cons_nth_drop_Suc)
next
  case (cut i e out')
  from cut(4) assms(2) have n: "\<forall>j. k \<le> j \<and> j < i \<longrightarrow> \<not> nonempty_match m s j"
    by (metis Suc_leI le_neq_implies_less)
  from cut(2) have ki: "k \<le> i" by simp
  have "drop k s = s ! k # drop (Suc k) s" using assms(3) by (simp add: Cons_nth_drop_Suc)
  moreover have "i - k = Suc (i - Suc k)" using cut(2) by simp
  ultimately have "take (i - k) (drop k s) = s ! k # take (i - Suc k) (drop (Suc k) s)" by simp
  with deleted_from.cut[OF ki cut(3) n cut(5,6,7)] cut(1) show ?thesis by simp
qed

lemma remove_matches_deleted_from:
  "deleted_from m s k (remove_matches m s k)"
proof (induction m s k rule: remove_matches.induct)
  case (1 m s i)
  show ?case
  proof (cases "length s < i")
    case True
    then have "remove_matches m s i = drop i s" by (subst remove_matches.simps) simp
    moreover from True have "deleted_from m s i (drop i s)" by (intro deleted_from.kept) auto
    ultimately show ?thesis by simp
  next
    case False
    show ?thesis
    proof (cases "nonempty_match m s i")
      case True
      then obtain e where e: "m s i = Some e" "i < e"
        by (auto simp: nonempty_match_def split: option.splits)
      from False have il: "i \<le> length s" by simp
      from "1.IH"(2)[OF False e(1) e(2)] have "deleted_from m s e (remove_matches m s e)" .
      have "\<forall>j. i \<le> j \<and> j < i \<longrightarrow> \<not> nonempty_match m s j" by auto
      from deleted_from.cut[OF le_refl il this e \<open>deleted_from m s e (remove_matches m s e)\<close>]
      have "deleted_from m s i (take (i - i) (drop i s) @ remove_matches m s e)" .
      with remove_matches_jump[of m s i e, OF e il] show ?thesis by simp
    next
      case nm: False
      show ?thesis
      proof (cases "i < length s")
        case True
        have ih: "deleted_from m s (Suc i) (remove_matches m s (Suc i))"
        proof (cases "m s i")
          case None
          from "1.IH"(1)[OF False None True] show ?thesis .
        next
          case (Some e)
          with nm have "\<not> i < e" by (simp add: nonempty_match_def)
          from "1.IH"(3)[OF False Some this True] show ?thesis .
        qed
        from deleted_from_extend[OF ih nm True] remove_matches_skip[OF nm True]
        show ?thesis by simp
      next
        case False
        with \<open>\<not> length s < i\<close> have eq: "i = length s" by simp
        with nm have "deleted_from m s i (drop i s)"
          by (intro deleted_from.kept) auto
        moreover from nm eq have "remove_matches m s i = []"
          by (intro remove_matches_end) simp_all
        ultimately show ?thesis using eq by simp
      qed
    qed
  qed
qed

lemma literal_char_deleted:
  "remove_matches (literal_matcher [c]) s k = filter (\<lambda>x. x \<noteq> c) (drop k s)"
proof (induction "literal_matcher [c]" s k rule: remove_matches.induct)
  case (1 s i)
  show ?case
  proof (cases "i < length s")
    case True
    then have d: "drop i s = s ! i # drop (Suc i) s" by (simp add: Cons_nth_drop_Suc)
    show ?thesis
    proof (cases "s ! i = c")
      case c: True
      with d have m: "literal_matcher [c] s i = Some (Suc i)" by (simp add: literal_matcher_def)
      from True have nl: "\<not> length s < i" by simp
      from "1.hyps" nl m have "remove_matches (literal_matcher [c]) s (Suc i)
          = filter (\<lambda>x. x \<noteq> c) (drop (Suc i) s)" by simp
      moreover from m True have "remove_matches (literal_matcher [c]) s i
          = remove_matches (literal_matcher [c]) s (Suc i)"
        by (subst remove_matches.simps) simp
      ultimately show ?thesis using d c by simp
    next
      case c: False
      with d have m: "literal_matcher [c] s i = None" by (simp add: literal_matcher_def)
      from True have nl: "\<not> length s < i" by simp
      from "1.hyps" nl m True have "remove_matches (literal_matcher [c]) s (Suc i)
          = filter (\<lambda>x. x \<noteq> c) (drop (Suc i) s)" by simp
      moreover from m True have "remove_matches (literal_matcher [c]) s i
          = s ! i # remove_matches (literal_matcher [c]) s (Suc i)"
        by (subst remove_matches.simps) simp
      ultimately show ?thesis using d c by simp
    qed
  next
    case False
    then have "literal_matcher [c] s i = None" by (simp add: literal_matcher_def)
    with False show ?thesis by (subst remove_matches.simps) simp
  qed
qed

lemma later_match_deleted:
  "remove_matches (literal_matcher ''a'') ''a.a'' 0 = ''.''"
  by (simp add: remove_matches.simps literal_matcher_def)

lemma literal_has_match: "has_match (literal_matcher ''a'') ''a.a''"
  by (simp add: has_match_def literal_matcher_def)

lemma later_match_example:
  "output_pairs (emit_resolved (literal_matcher ''a'') ''a'' [] [(''a.a'', YStr ''x''), (''b'', YStr ''y'')])
     = [(''.'', YStr ''x'')]"
proof -
  have "\<not> has_match (literal_matcher ''a'') ''b''"
    by (simp add: has_match_def literal_matcher_def)
  then show ?thesis
    by (simp add: emit_resolved_def output_pairs_append output_pairs_emit_entry
        literal_has_match later_match_deleted)
qed

text \<open>
  The scenario of section 8, with the pattern \<^verbatim>\<open>prod.\<close> taken literally: of the keys
  \<^verbatim>\<open>prod.x\<close> and \<^verbatim>\<open>dev.x\<close> only \<^verbatim>\<open>x: 1\<close> is emitted.
\<close>

lemma filter_scenario:
  "output_pairs (emit_resolved (literal_matcher ''prod.'') ''prod.'' []
       [(''prod.x'', YNum ''1''), (''dev.x'', YNum ''2'')]) = [(''x'', YNum ''1'')]"
proof -
  have "has_match (literal_matcher ''prod.'') ''prod.x''"
    and "\<not> has_match (literal_matcher ''prod.'') ''dev.x''"
    and "remove_matches (literal_matcher ''prod.'') ''prod.x'' 0 = ''x''"
    by (simp_all add: has_match_def literal_matcher_def remove_matches.simps)
  then show ?thesis
    by (simp add: emit_resolved_def output_pairs_append output_pairs_emit_entry)
qed

text \<open>
  Claim C8, as stated, fails: with the pattern \<^verbatim>\<open>a\<close> the entry of key \<^verbatim>\<open>a.a\<close> is
  emitted under the key \<^verbatim>\<open>.\<close>, both matches deleted; with only the first match
  deleted the key would be \<^verbatim>\<open>.a\<close>.
\<close>

theorem later_match_is_deleted_too:
  "output_pairs (emit_resolved (literal_matcher ''a'') ''a'' [] [(''a.a'', YStr ''x''), (''b'', YStr ''y'')])
     = [(''.'', YStr ''x'')]
   \<and> remove_first_match (literal_matcher ''a'') ''a.a'' = ''.a''"
proof -
  have "remove_first_match (literal_matcher ''a'') ''a.a'' = ''.a''"
    by (simp add: remove_first_match_def literal_matcher_def)
  with later_match_example show ?thesis by simp
qed

text \<open>
  Claim C8, amended: for every Resolved Map and every present filter pattern, exactly
  the entries whose key matches the pattern are emitted, in the order of the map, and
  each passing entry is emitted under the key with every match of the pattern
  deleted: the first match is deleted and the deletion goes on in the text after it,
  so that later matches are deleted too. The key emitted is the one text that
  \<open>deleted_from\<close> describes; for a pattern of one literal character it is the key
  without any occurrence of that character.
\<close>

theorem filter_deletes_every_match:
  "(keyPathPattern \<noteq> [] \<longrightarrow>
      output_pairs (emit_resolved reKPP keyPathPattern envVarPrefix res) =
        map (\<lambda>kv. (remove_matches reKPP (fst kv) 0, snd kv))
            (filter (\<lambda>kv. has_match reKPP (fst kv)) res))
   \<and> (deleted_from reKPP s 0 out \<longleftrightarrow> out = remove_matches reKPP s 0)
   \<and> remove_matches (literal_matcher [c]) s 0 = filter (\<lambda>x. x \<noteq> c) s"
proof (intro conjI impI)
  assume k: "keyPathPattern \<noteq> []"
  show "output_pairs (emit_resolved reKPP keyPathPattern envVarPrefix res) =
        map (\<lambda>kv. (remove_matches reKPP (fst kv) 0, snd kv))
            (filter (\<lambda>kv. has_match reKPP (fst kv)) res)"
  proof (induction res)
    case Nil
    show ?case by (simp add: emit_resolved_def)
  next
    case (Cons kv res)
    have "emit_resolved reKPP keyPathPattern envVarPrefix (kv # res) =
            emit_entry reKPP keyPathPattern envVarPrefix kv
            @ emit_resolved reKPP keyPathPattern envVarPrefix res"
      by (simp add: emit_resolved_def)
    with Cons.IH k show ?case
      by (simp add: output_pairs_append output_pairs_emit_entry)
  qed
next
  show "deleted_from reKPP s 0 out \<longleftrightarrow> out = remove_matches reKPP s 0"
    using deleted_from_remove_matches[of reKPP s 0 out] remove_matches_deleted_from[of reKPP s 0]
    by blast
next
  show "remove_matches (literal_matcher [c]) s 0 = filter (\<lambda>x. x \<noteq> c) s"
    using literal_char_deleted[of c s 0] by simp
qed

theorem filter_deletes_every_match_witness:
  "''a'' \<noteq> []
   \<and> output_pairs (emit_resolved (literal_matcher ''a'') ''a'' [] [(''a.a'', YStr ''x''), (''b'', YStr ''y'')])
       = [(''.'', YStr ''x'')]
   \<and> deleted_from (literal_matcher ''a'') ''a.a'' 0 ''.''
   \<and> remove_matches (literal_matcher ''a'') ''a.a'' 0 = ''.''"
proof -
  note t = filter_deletes_every_match[where keyPathPattern = "''a''" and reKPP = "literal_matcher ''a''"
      and envVarPrefix = "[]" and res = "[(''a.a'', YStr ''x''), (''b'', YStr ''y'')]"
      and s = "''a.a''" and out = "''.''" and c = "CHR ''a''"]
  have f: "filter (\<lambda>kv. has_match (literal_matcher ''a'') (fst kv)) [(''a.a'', YStr ''x''), (''b'', YStr ''y'')]
           = [(''a.a'', YStr ''x'')]"
    by (simp add: has_match_def literal_matcher_def)
  from t have r: "remove_matches (literal_matcher ''a'') ''a.a'' 0 = ''.''" by simp
  with t have d: "deleted_from (literal_matcher ''a'') ''a.a'' 0 ''.''" by simp
  from t f r have "output_pairs (emit_resolved (literal_matcher ''a'') ''a'' []
        [(''a.a'', YStr ''x''), (''b'', YStr ''y'')]) = [(''.'', YStr ''x'')]"
    by simp
  with r d show ?thesis by simp
qed

section \<open>Merging (claims C3, C9)\<close>

lemma map_of_merged_left:
  "map_of (map (\<lambda>kv. (fst kv, h (fst kv) (snd kv))) as @ bs') k =
     (case map_of as k of Some v \<Rightarrow> Some (h k v) | None \<Rightarrow> map_of bs' k)"
  by (induction as) auto

lemma deepMerge_not_maps:
  "(\<forall>as. a \<noteq> YMap as) \<or> (\<forall>bs. b \<noteq> YMap bs) \<Longrightarrow> deepMerge a b = b"
  by (subst deepMerge.simps) (auto split: yaml.splits)

lemma deepMerge_sequence_at_path:
  "at_path a p = Some (YSeq xs) \<Longrightarrow> at_path b p = Some (YSeq ys) \<Longrightarrow>
   at_path (deepMerge a b) p = Some (YSeq ys)"
proof (induction p arbitrary: a b)
  case Nil
  then show ?case by (simp add: deepMerge_not_maps)
next
  case (Cons seg p)
  show ?case
  proof (cases "(\<exists>as. a = YMap as) \<and> (\<exists>bs. b = YMap bs)")
    case False
    then have "deepMerge a b = b" by (intro deepMerge_not_maps) auto
    with Cons.prems show ?thesis by simp
  next
    case True
    then obtain as bs where a: "a = YMap as" and b: "b = YMap bs" by blast
    from Cons.prems(1) a obtain k where seg: "seg = Key k" by (cases seg) auto
    from Cons.prems(1) a seg obtain a' where a': "map_of as k = Some a'" "at_path a' p = Some (YSeq xs)"
      by (auto split: option.splits)
    from Cons.prems(2) b seg obtain b' where b': "map_of bs k = Some b'" "at_path b' p = Some (YSeq ys)"
      by (auto split: option.splits)
    have "map_of (map (\<lambda>kv. (fst kv, case map_of bs (fst kv) of
                                      None \<Rightarrow> snd kv
                                    | Some vb \<Rightarrow> deepMerge (snd kv) vb)) as
                @ filter (\<lambda>kv. fst kv \<notin> fst ` set as) bs) k = Some (deepMerge a' b')"
      using a'(1) b'(1)
      by (subst map_of_merged_left[where h = "\<lambda>k v. case map_of bs k of None \<Rightarrow> v | Some vb \<Rightarrow> deepMerge v vb"]) simp
    with a b seg Cons.IH[OF a'(2) b'(2)] show ?thesis by (simp add: deepMerge_maps)
  qed
qed

lemma merge_two: "merge [a, b] = deepMerge a b"
  by (simp add: merge_def deepMerge_empty)

text \<open>The loop of \<^verbatim>\<open>main\<close> over documents that all load computes \<open>merge\<close>.\<close>

lemma load_files_documents:
  "load_files (map Document ds) keyPathPattern m evs =
     (Normal, foldl deepMerge m ds,
      evs @ concat (replicate (length ds) (pattern_info keyPathPattern)))"
  by (induction ds arbitrary: m evs) simp_all

lemma load_files_merge:
  "fst (snd (load_files (map Document ds) keyPathPattern (YMap []) [])) = merge ds"
  by (simp add: load_files_documents merge_def)

text \<open>The scenario of section 8 for the merge of two documents.\<close>

lemma merge_scenario:
  "merge [YMap [(''a'', YNum ''1''), (''b'', YMap [(''x'', YNum ''1'')])], YMap [(''b'', YMap [(''y'', YNum ''2'')])]]
     = YMap [(''a'', YNum ''1''), (''b'', YMap [(''x'', YNum ''1''), (''y'', YNum ''2'')])]"
  by (simp add: merge_two deepMerge_maps deepMerge_not_maps)

text \<open>
  Claim C3: for every ordered pair of document trees \<open>a\<close> and \<open>b\<close> in which the same
  path holds a sequence in both, the merge of \<open>a\<close> and \<open>b\<close> holds at that path exactly
  the sequence of \<open>b\<close>: the sequences are not concatenated and their elements are not
  merged. The merge function is the one the specification describes.
\<close>

theorem later_sequence_replaces_earlier:
  "at_path a p = Some (YSeq xs) \<Longrightarrow> at_path b p = Some (YSeq ys) \<Longrightarrow>
   at_path (merge [a, b]) p = Some (YSeq ys)"
  by (simp add: merge_two deepMerge_sequence_at_path)

theorem later_sequence_replaces_earlier_witness:
  "at_path (YMap [(''k'', YSeq [YNum ''1'', YNum ''2''])]) [Key ''k''] = Some (YSeq [YNum ''1'', YNum ''2''])
   \<and> at_path (YMap [(''k'', YSeq [YNum ''3''])]) [Key ''k''] = Some (YSeq [YNum ''3''])
   \<and> at_path (merge [YMap [(''k'', YSeq [YNum ''1'', YNum ''2''])], YMap [(''k'', YSeq [YNum ''3''])]])
         [Key ''k''] = Some (YSeq [YNum ''3''])"
  using later_sequence_replaces_earlier[of "YMap [(''k'', YSeq [YNum ''1'', YNum ''2''])]" "[Key ''k'']"
      "[YNum ''1'', YNum ''2'']" "YMap [(''k'', YSeq [YNum ''3''])]" "[YNum ''3'']"]
  by simp

text \<open>
  Claim C9: the merge of a list of documents is associative in the sense that merging
  \<open>a\<close>, \<open>b\<close>, \<open>c\<close> equals merging the merge of \<open>a\<close> and \<open>b\<close> with \<open>c\<close>, for all
  trees; and it is not commutative: some \<open>a\<close> and \<open>b\<close> merge differently in the two
  orders. The merge function is the one the specification describes.
\<close>

theorem merge_fold_associative_not_commutative:
  "(\<forall>a b c. merge [a, b, c] = merge [merge [a, b], c])
   \<and> (\<exists>a b. merge [a, b] \<noteq> merge [b, a])"
proof
  show "\<forall>a b c. merge [a, b, c] = merge [merge [a, b], c]"
    by (simp add: merge_def deepMerge_empty)
  have "merge [YMap [(''a'', YNum ''1'')], YMap [(''a'', YNum ''2'')]]
        \<noteq> merge [YMap [(''a'', YNum ''2'')], YMap [(''a'', YNum ''1'')]]"
    by (simp add: merge_two deepMerge_maps deepMerge_not_maps)
  then show "\<exists>a b. merge [a, b] \<noteq> merge [b, a]" by blast
qed

theorem merge_fold_associative_not_commutative_witness:
  "merge [YMap [(''a'', YNum ''1'')], YMap [(''a'', YNum ''2'')], YMap [(''b'', YNum ''3'')]] =
     merge [merge [YMap [(''a'', YNum ''1'')], YMap [(''a'', YNum ''2'')]], YMap [(''b'', YNum ''3'')]]
   \<and> merge [YMap [(''a'', YNum ''1'')], YMap [(''a'', YNum ''2'')]] = YMap [(''a'', YNum ''2'')]
   \<and> merge [YMap [(''a'', YNum ''2'')], YMap [(''a'', YNum ''1'')]] = YMap [(''a'', YNum ''1'')]"
proof -
  from merge_fold_associative_not_commutative
  have "merge [YMap [(''a'', YNum ''1'')], YMap [(''a'', YNum ''2'')], YMap [(''b'', YNum ''3'')]] =
     merge [merge [YMap [(''a'', YNum ''1'')], YMap [(''a'', YNum ''2'')]], YMap [(''b'', YNum ''3'')]]"
    by blast
  then show ?thesis
    by (simp add: merge_two deepMerge_maps deepMerge_not_maps)
qed

end
